theory Spec2Isabelle
  imports Main "HOL-Library.Word" "HOL-Library.Finite_Map"
begin

section \<open>Messages of the api package\<close>

text \<open>
  Modelled from the spec: the generated package \<^verbatim>\<open>supervisor/api\<close> is not among the
  sources, so the message types carry the fields that \<^verbatim>\<open>notification.go\<close> reads
  (\<^verbatim>\<open>Actions\<close>, \<^verbatim>\<open>Active\<close>, \<^verbatim>\<open>Open\<close>, \<^verbatim>\<open>Preview\<close>, \<^verbatim>\<open>Action\<close>, \<^verbatim>\<open>Command.Cmd\<close>,
  \<^verbatim>\<open>RequestId\<close>, \<^verbatim>\<open>Request\<close>, \<^verbatim>\<open>Response\<close>) and the message and level that section 3
  of the spec lists. A Go pointer field that may be nil is an \<open>option\<close>; the payloads of
  \<^verbatim>\<open>Open\<close> and \<^verbatim>\<open>Preview\<close> are resources named by a string.
\<close>

datatype Level = ERROR | WARNING | INFO

record Command =
  Cmd :: string

record NotifyRequest =
  Level :: Level
  Message :: string
  Actions :: "string list"
  Active :: bool
  Open :: "string option"
  Preview :: "string option"

record NotifyResponse =
  Action :: string
  Command :: "Command option"

record SubscribeResponse =
  RequestId :: "64 word"
  Request :: NotifyRequest

text \<open>
  \<^verbatim>\<open>api.SubscribeRequest\<close> has the single field \<^verbatim>\<open>Active\<close>; \<^verbatim>\<open>api.RespondRequest\<close> pairs a
  request id with a \<^verbatim>\<open>*NotifyResponse\<close>, which is nil when the caller left it out. Their
  field names repeat those above and are written qualified.
\<close>

record SubscribeRequest =
  Active :: bool

record RespondRequest =
  RequestId :: "64 word"
  Response :: "NotifyResponse option"

text \<open>\<^verbatim>\<open>&api.NotifyResponse{}\<close> and \<^verbatim>\<open>&api.RespondResponse{}\<close>: the zero values.\<close>

definition empty_NotifyResponse :: NotifyResponse where
  "empty_NotifyResponse = \<lparr>Action = [], Command = None\<rparr>"

datatype RespondResponse = RespondResponse

section \<open>Status codes and results\<close>

text \<open>
  The gRPC codes the file uses, and the two values \<^verbatim>\<open>ctx.Err()\<close> can hold once a context
  is done. A context is \<open>None\<close> while it is live and \<open>Some e\<close> once it is done.
\<close>

datatype codes = Aborted | DeadlineExceeded | Internal | InvalidArgument | ResourceExhausted

datatype ctx_error = Canceled | ContextDeadlineExceeded

datatype error = Status codes | ContextErr ctx_error

type_synonym ctx = "ctx_error option"

text \<open>
  What a call does when it is run on a state: it returns a value and leaves a state, or
  it is suspended (a send on a full channel, a \<^verbatim>\<open>select\<close> with no ready case) with the
  state as it left it, or it panics (a send on a closed channel, closing a closed channel,
  a nil dereference).
\<close>

datatype ('a, 's) outcome = Returns 'a 's | Blocks 's | Panics

section \<open>Channels\<close>

text \<open>
  A buffered Go channel: the values queued, the capacity and whether it was closed.
  Every channel of the file is made with a capacity of at least one, so a send succeeds
  exactly when the buffer has room (a receiver can only be waiting on an empty buffer).
\<close>

record 'a chan =
  buf :: "'a list"
  cap :: nat
  chan_closed :: bool

definition make_chan :: "nat \<Rightarrow> 'a chan" where
  "make_chan n = \<lparr>buf = [], cap = n, chan_closed = False\<rparr>"

datatype 'a sent = Sent "'a chan" | WouldBlock | SendPanics

text \<open>
  \<^verbatim>\<open>ch <- v\<close>. \<open>WouldBlock\<close> is where a plain send is suspended and where a send in a
  \<^verbatim>\<open>select\<close> with a \<^verbatim>\<open>default\<close> case takes the default.
\<close>

definition chan_send :: "'a \<Rightarrow> 'a chan \<Rightarrow> 'a sent" where
  "chan_send v ch =
     (if chan_closed ch then SendPanics
      else if length (buf ch) < cap ch then Sent (ch\<lparr>buf := buf ch @ [v]\<rparr>)
      else WouldBlock)"

datatype 'a received = Received 'a "'a chan" | ClosedEmpty | NotReady

text \<open>\<^verbatim>\<open>v, ok := <-ch\<close>: a buffered value first, then \<^verbatim>\<open>ok = false\<close> on a closed channel.\<close>

definition chan_recv :: "'a chan \<Rightarrow> 'a received" where
  "chan_recv ch =
     (case buf ch of
        v # vs \<Rightarrow> Received v (ch\<lparr>buf := vs\<rparr>)
      | [] \<Rightarrow> if chan_closed ch then ClosedEmpty else NotReady)"

text \<open>\<^verbatim>\<open>close(ch)\<close>: \<open>None\<close> is the panic of closing a closed channel.\<close>

definition chan_close :: "'a chan \<Rightarrow> 'a chan option" where
  "chan_close ch = (if chan_closed ch then None else Some (ch\<lparr>chan_closed := True\<rparr>))"

section \<open>The broker's objects\<close>

text \<open>
  \<^verbatim>\<open>pendingNotification\<close> and \<^verbatim>\<open>subscription\<close>. \<open>once\<close> is whether the \<^verbatim>\<open>sync.Once\<close> has
  run; \<open>cancel_called\<close> is whether the subscription's \<^verbatim>\<open>cancel\<close> function was called
  (it cancels a context that nothing else holds). The field \<^verbatim>\<open>id\<close> is \<open>sub_id\<close> here.
  The two records share the names \<open>once\<close> and \<open>closed\<close>, written qualified.
\<close>

record pendingNotification =
  message :: SubscribeResponse
  responseChannel :: "NotifyResponse chan"
  once :: bool
  closed :: bool

record subscription =
  sub_id :: "64 word"
  active :: bool
  channel :: "SubscribeResponse chan"
  once :: bool
  closed :: bool
  cancel_called :: bool

text \<open>\<^verbatim>\<open>pending.close()\<close>: the body runs under \<^verbatim>\<open>once.Do\<close>, so at most once.\<close>

definition pending_close :: "pendingNotification \<Rightarrow> pendingNotification option" where
  "pending_close pending =
     (if pendingNotification.once pending then Some pending
      else case chan_close (responseChannel pending) of
             None \<Rightarrow> None
           | Some ch \<Rightarrow>
               Some (pending\<lparr>responseChannel := ch,
                             pendingNotification.closed := True,
                             pendingNotification.once := True\<rparr>))"

text \<open>\<^verbatim>\<open>subscription.close()\<close>: close the queue, set the flag, call \<^verbatim>\<open>cancel\<close>; once.\<close>

definition subscription_close :: "subscription \<Rightarrow> subscription option" where
  "subscription_close sub =
     (if subscription.once sub then Some sub
      else case chan_close (channel sub) of
             None \<Rightarrow> None
           | Some ch \<Rightarrow>
               Some (sub\<lparr>channel := ch,
                         subscription.closed := True,
                         cancel_called := True,
                         subscription.once := True\<rparr>))"

section \<open>The service\<close>

definition NotifierMaxPendingNotifications :: nat where
  "NotifierMaxPendingNotifications = 120"

definition SubscriberMaxPendingNotifications :: nat where
  "SubscriberMaxPendingNotifications = 100"

text \<open>
  \<^verbatim>\<open>NotificationService\<close>: the two counters and the two maps of the struct. The maps hold
  pointers, and a producer or a subscriber keeps its pointer after the entry has left
  the map, so the objects live in two stores indexed by address: \<open>subscription_at\<close> and
  \<open>pending_at\<close>, with \<open>subscription_next\<close> and \<open>pending_next\<close> the first address not
  yet handed out. The mutex is not a field: each function below that takes it is one
  critical section, and runs as one step.
\<close>

type_synonym addr = nat

record NotificationService =
  nextSubscriptionID :: "64 word"
  subscriptions :: "(64 word, addr) fmap"
  nextNotificationID :: "64 word"
  pendingNotifications :: "(64 word, addr) fmap"
  subscription_at :: "addr \<Rightarrow> subscription"
  subscription_next :: addr
  pending_at :: "addr \<Rightarrow> pendingNotification"
  pending_next :: addr

text \<open>\<^verbatim>\<open>len(m)\<close> of a Go map.\<close>

definition len_map :: "('k, 'v) fmap \<Rightarrow> nat" where
  "len_map m = card (fmdom' m)"

text \<open>
  \<^verbatim>\<open>for k, v := range m\<close> visits the entries in an order the runtime chooses. The loops
  below take that order as a list of keys; it is a \<open>range_order\<close> of the map when it
  lists every key once. An entry deleted before the loop reaches it is not visited.
\<close>

definition range_order :: "('k, 'v) fmap \<Rightarrow> 'k list \<Rightarrow> bool" where
  "range_order m ks \<longleftrightarrow> distinct ks \<and> set ks = fmdom' m"

definition NewNotificationService :: NotificationService where
  "NewNotificationService =
     \<lparr>nextSubscriptionID = 0,
      subscriptions = fmempty,
      nextNotificationID = 0,
      pendingNotifications = fmempty,
      subscription_at = (\<lambda>_. \<lparr>sub_id = 0, active = False, channel = make_chan 0,
                                once = False, closed = False, cancel_called = False\<rparr>),
      subscription_next = 0,
      pending_at = (\<lambda>_. \<lparr>message = \<lparr>SubscribeResponse.RequestId = 0,
                                         Request = \<lparr>Level = ERROR, Message = [], Actions = [],
                                                    Active = False, Open = None, Preview = None\<rparr>\<rparr>,
                           responseChannel = make_chan 0, once = False, closed = False\<rparr>),
      pending_next = 0\<rparr>"

subsection \<open>Classification and validation\<close>

definition isBlocking :: "NotifyRequest \<Rightarrow> bool" where
  "isBlocking req \<longleftrightarrow> length (Actions req) > 0 \<or> Open req \<noteq> None \<or> Preview req \<noteq> None"

definition supports :: "subscription \<Rightarrow> NotifyRequest \<Rightarrow> bool" where
  "supports s req \<longleftrightarrow> active s = NotifyRequest.Active req"

text \<open>The loop of \<^verbatim>\<open>validateResponse\<close> over \<^verbatim>\<open>req.Actions\<close>.\<close>

fun allowed :: "string list \<Rightarrow> string \<Rightarrow> bool" where
  "allowed [] action = False"
| "allowed (allowedAction # rest) action =
     (if allowedAction = action then True else allowed rest action)"

definition validateResponse :: "NotifyResponse \<Rightarrow> NotifyRequest \<Rightarrow> bool" where
  "validateResponse resp req =
     (case Command resp of
        Some command \<Rightarrow> Cmd command \<noteq> []
      | None \<Rightarrow> if Action resp = [] then True else allowed (Actions req) (Action resp))"

subsection \<open>Operations on the stored objects\<close>

text \<open>\<^verbatim>\<open>pending.responseChannel <- v\<close> and \<^verbatim>\<open>pending.close()\<close> for the object at \<open>p\<close>.\<close>

definition send_response ::
  "addr \<Rightarrow> NotifyResponse \<Rightarrow> NotificationService \<Rightarrow> (unit, NotificationService) outcome" where
  "send_response p v srv =
     (let pending = pending_at srv p in
      case chan_send v (responseChannel pending) of
        Sent ch \<Rightarrow>
          Returns () (srv\<lparr>pending_at := (pending_at srv)(p := pending\<lparr>responseChannel := ch\<rparr>)\<rparr>)
      | WouldBlock \<Rightarrow> Blocks srv
      | SendPanics \<Rightarrow> Panics)"

definition close_pending ::
  "addr \<Rightarrow> NotificationService \<Rightarrow> (unit, NotificationService) outcome" where
  "close_pending p srv =
     (case pending_close (pending_at srv p) of
        Some pending \<Rightarrow> Returns () (srv\<lparr>pending_at := (pending_at srv)(p := pending)\<rparr>)
      | None \<Rightarrow> Panics)"

definition close_subscription ::
  "addr \<Rightarrow> NotificationService \<Rightarrow> (unit, NotificationService) outcome" where
  "close_subscription a srv =
     (case subscription_close (subscription_at srv a) of
        Some sub \<Rightarrow> Returns () (srv\<lparr>subscription_at := (subscription_at srv)(a := sub)\<rparr>)
      | None \<Rightarrow> Panics)"

subsection \<open>The dispatcher\<close>

text \<open>
  The body of the loop of \<^verbatim>\<open>notifySubscribers\<close> for the registry key \<open>k\<close>: a
  subscription that supports the request is sent the message without waiting, and one
  whose queue is full is deleted from the registry (under its own \<^verbatim>\<open>id\<close>) and closed.
\<close>

definition fan_out_visit ::
  "64 word \<Rightarrow> SubscribeResponse \<Rightarrow> NotificationService
     \<Rightarrow> (unit, NotificationService) outcome" where
  "fan_out_visit k msg srv =
     (case fmlookup (subscriptions srv) k of
        None \<Rightarrow> Returns () srv
      | Some a \<Rightarrow>
          (let sub = subscription_at srv a in
           if \<not> supports sub (Request msg) then Returns () srv
           else (case chan_send msg (channel sub) of
                   Sent ch \<Rightarrow>
                     Returns ()
                       (srv\<lparr>subscription_at := (subscription_at srv)(a := sub\<lparr>channel := ch\<rparr>)\<rparr>)
                 | WouldBlock \<Rightarrow>
                     close_subscription a
                       (srv\<lparr>subscriptions := fmdrop (sub_id sub) (subscriptions srv)\<rparr>)
                 | SendPanics \<Rightarrow> Panics)))"

fun fan_out ::
  "64 word list \<Rightarrow> SubscribeResponse \<Rightarrow> NotificationService
     \<Rightarrow> (unit, NotificationService) outcome" where
  "fan_out [] msg srv = Returns () srv"
| "fan_out (k # ks) msg srv =
     (case fan_out_visit k msg srv of
        Returns _ srv' \<Rightarrow> fan_out ks msg srv'
      | Blocks srv' \<Rightarrow> Blocks srv'
      | Panics \<Rightarrow> Panics)"

text \<open>
  \<^verbatim>\<open>notifySubscribers\<close>, one critical section. \<open>order\<close> is the order in which the loop
  ranges over the registry. It returns the address of the new pending notification.
\<close>

definition notifySubscribers ::
  "64 word list \<Rightarrow> NotifyRequest \<Rightarrow> NotificationService
     \<Rightarrow> (addr, NotificationService) outcome" where
  "notifySubscribers order req srv =
     (let requestID = nextNotificationID srv;
          msg = \<lparr>SubscribeResponse.RequestId = requestID, Request = req\<rparr>
      in case fan_out order msg (srv\<lparr>nextNotificationID := nextNotificationID srv + 1\<rparr>) of
           Panics \<Rightarrow> Panics
         | Blocks srv' \<Rightarrow> Blocks srv'
         | Returns _ srv1 \<Rightarrow>
             let p = pending_next srv1;
                 pending = \<lparr>message = msg, responseChannel = make_chan 1,
                            once = False, closed = False\<rparr>;
                 srv2 = srv1\<lparr>pending_at := (pending_at srv1)(p := pending),
                             pending_next := Suc p,
                             pendingNotifications := fmupd requestID p (pendingNotifications srv1)\<rparr>
             in if \<not> isBlocking req then
                  (case send_response p empty_NotifyResponse srv2 of
                     Returns _ srv3 \<Rightarrow>
                       (case close_pending p srv3 of
                          Returns _ srv4 \<Rightarrow> Returns p srv4
                        | Blocks srv' \<Rightarrow> Blocks srv'
                        | Panics \<Rightarrow> Panics)
                   | Blocks srv' \<Rightarrow> Blocks srv'
                   | Panics \<Rightarrow> Panics)
                else Returns p srv2)"

subsection \<open>Notify\<close>

text \<open>
  The \<^verbatim>\<open>select\<close> of \<^verbatim>\<open>Notify\<close> on the pending notification at \<open>p\<close>. When both the response
  channel and \<^verbatim>\<open>ctx.Done()\<close> are ready the runtime picks one; \<open>pick\<close> is that choice.
  With neither ready the call stays suspended.
\<close>

datatype pick = PickChannel | PickDone

definition Notify_received ::
  "addr \<Rightarrow> NotificationService \<Rightarrow> (error + NotifyResponse, NotificationService) outcome" where
  "Notify_received p srv =
     (let pending = pending_at srv p in
      case chan_recv (responseChannel pending) of
        Received resp ch \<Rightarrow>
          Returns (Inr resp)
            (srv\<lparr>pending_at := (pending_at srv)(p := pending\<lparr>responseChannel := ch\<rparr>)\<rparr>)
      | ClosedEmpty \<Rightarrow> Returns (Inl (Status Aborted)) srv
      | NotReady \<Rightarrow> Blocks srv)"

definition Notify_cancelled ::
  "ctx_error \<Rightarrow> addr \<Rightarrow> NotificationService
     \<Rightarrow> (error + NotifyResponse, NotificationService) outcome" where
  "Notify_cancelled e p srv =
     (let requestId = SubscribeResponse.RequestId (message (pending_at srv p)) in
      case fmlookup (pendingNotifications srv) requestId of
        Some _ \<Rightarrow>
          (case close_pending p
                  (srv\<lparr>pendingNotifications := fmdrop requestId (pendingNotifications srv)\<rparr>) of
             Returns _ srv' \<Rightarrow> Returns (Inl (ContextErr e)) srv'
           | Blocks srv' \<Rightarrow> Blocks srv'
           | Panics \<Rightarrow> Panics)
      | None \<Rightarrow> Returns (Inl (ContextErr e)) srv)"

definition Notify_select ::
  "ctx \<Rightarrow> pick \<Rightarrow> addr \<Rightarrow> NotificationService
     \<Rightarrow> (error + NotifyResponse, NotificationService) outcome" where
  "Notify_select ctx pick p srv =
     (case chan_recv (responseChannel (pending_at srv p)) of
        NotReady \<Rightarrow> (case ctx of None \<Rightarrow> Blocks srv | Some e \<Rightarrow> Notify_cancelled e p srv)
      | _ \<Rightarrow>
          (case ctx of
             None \<Rightarrow> Notify_received p srv
           | Some e \<Rightarrow>
               if pick = PickChannel then Notify_received p srv else Notify_cancelled e p srv))"

text \<open>
  \<^verbatim>\<open>Notify\<close> run with no other call between its steps: the admission check (read without
  the mutex), the dispatcher, the \<^verbatim>\<open>select\<close>. \<open>Blocks\<close> is the producer waiting.
\<close>

definition Notify ::
  "ctx \<Rightarrow> pick \<Rightarrow> 64 word list \<Rightarrow> NotifyRequest \<Rightarrow> NotificationService
     \<Rightarrow> (error + NotifyResponse, NotificationService) outcome" where
  "Notify ctx pick order req srv =
     (if len_map (pendingNotifications srv) \<ge> NotifierMaxPendingNotifications
      then Returns (Inl (Status ResourceExhausted)) srv
      else case notifySubscribers order req srv of
             Returns p srv1 \<Rightarrow> Notify_select ctx pick p srv1
           | Blocks srv' \<Rightarrow> Blocks srv'
           | Panics \<Rightarrow> Panics)"

subsection \<open>Subscribe\<close>

text \<open>
  The body of the replay loop of \<^verbatim>\<open>subscribeLocked\<close> for the pending-table key \<open>k\<close>
  and the subscription at \<open>a\<close>: a plain send, which would suspend the call on a full
  queue, and the deletion of a non-blocking entry.
\<close>

definition replay_visit ::
  "64 word \<Rightarrow> addr \<Rightarrow> NotificationService \<Rightarrow> (unit, NotificationService) outcome" where
  "replay_visit k a srv =
     (case fmlookup (pendingNotifications srv) k of
        None \<Rightarrow> Returns () srv
      | Some p \<Rightarrow>
          (let pending = pending_at srv p;
               sub = subscription_at srv a
           in if \<not> supports sub (Request (message pending)) then Returns () srv
              else (case chan_send (message pending) (channel sub) of
                      Sent ch \<Rightarrow>
                        (let srv1 = srv\<lparr>subscription_at :=
                                          (subscription_at srv)(a := sub\<lparr>channel := ch\<rparr>)\<rparr>
                         in if \<not> isBlocking (Request (message pending))
                            then Returns ()
                                   (srv1\<lparr>pendingNotifications :=
                                           fmdrop k (pendingNotifications srv1)\<rparr>)
                            else Returns () srv1)
                    | WouldBlock \<Rightarrow> Blocks srv
                    | SendPanics \<Rightarrow> Panics)))"

fun replay ::
  "64 word list \<Rightarrow> addr \<Rightarrow> NotificationService \<Rightarrow> (unit, NotificationService) outcome" where
  "replay [] a srv = Returns () srv"
| "replay (k # ks) a srv =
     (case replay_visit k a srv of
        Returns _ srv' \<Rightarrow> replay ks a srv'
      | Blocks srv' \<Rightarrow> Blocks srv'
      | Panics \<Rightarrow> Panics)"

text \<open>
  \<^verbatim>\<open>subscribeLocked\<close>, one critical section; \<open>order\<close> is the order of the range over the
  pending table. It returns the address of the new subscription.
\<close>

definition subscribeLocked ::
  "64 word list \<Rightarrow> SubscribeRequest \<Rightarrow> NotificationService
     \<Rightarrow> (addr, NotificationService) outcome" where
  "subscribeLocked order req srv =
     (let capacity = len_map (pendingNotifications srv);
          capacity = (if SubscriberMaxPendingNotifications > capacity
                      then SubscriberMaxPendingNotifications else capacity);
          id = nextSubscriptionID srv;
          a = subscription_next srv;
          sub = \<lparr>sub_id = id, active = SubscribeRequest.Active req, channel = make_chan capacity,
                 once = False, closed = False, cancel_called = False\<rparr>;
          srv1 = srv\<lparr>nextSubscriptionID := nextSubscriptionID srv + 1,
                      subscription_at := (subscription_at srv)(a := sub),
                      subscription_next := Suc a,
                      subscriptions := fmupd id a (subscriptions srv)\<rparr>
      in case replay order a srv1 of
           Returns _ srv2 \<Rightarrow> Returns a srv2
         | Blocks srv' \<Rightarrow> Blocks srv'
         | Panics \<Rightarrow> Panics)"

definition unsubscribeLocked ::
  "64 word \<Rightarrow> NotificationService \<Rightarrow> (unit, NotificationService) outcome" where
  "unsubscribeLocked subscriptionID srv =
     (case fmlookup (subscriptions srv) subscriptionID of
        None \<Rightarrow> Returns () srv
      | Some a \<Rightarrow>
          close_subscription a
            (srv\<lparr>subscriptions := fmdrop (sub_id (subscription_at srv a)) (subscriptions srv)\<rparr>))"

text \<open>
  One round of the loop of \<^verbatim>\<open>Subscribe\<close> for the subscription at \<open>a\<close>: \<open>Some r\<close> when the
  loop returns \<open>r\<close> (after which the deferred \<^verbatim>\<open>unsubscribeLocked\<close> runs), \<open>None\<close> when it
  goes round again. \<open>sent\<close> is what \<^verbatim>\<open>resp.Send\<close> answers for a message it is given.
\<close>

definition Subscribe_select ::
  "ctx \<Rightarrow> pick \<Rightarrow> bool \<Rightarrow> addr \<Rightarrow> NotificationService
     \<Rightarrow> ((error + unit) option, NotificationService) outcome" where
  "Subscribe_select ctx pick sent a srv =
     (let sub = subscription_at srv a in
      case chan_recv (channel sub) of
        NotReady \<Rightarrow> (case ctx of None \<Rightarrow> Blocks srv | Some _ \<Rightarrow> Returns (Some (Inr ())) srv)
      | r \<Rightarrow>
          if ctx \<noteq> None \<and> pick = PickDone then Returns (Some (Inr ())) srv
          else (case r of
                  Received m ch \<Rightarrow>
                    let srv1 = srv\<lparr>subscription_at :=
                                     (subscription_at srv)(a := sub\<lparr>channel := ch\<rparr>)\<rparr>
                    in if subscription.closed sub then Returns (Some (Inl (Status Aborted))) srv1
                       else if \<not> sent then Returns (Some (Inl (Status Internal))) srv1
                       else Returns None srv1
                | _ \<Rightarrow> Returns (Some (Inl (Status Aborted))) srv))"

subsection \<open>Respond\<close>

text \<open>
  \<^verbatim>\<open>Respond\<close>, one critical section. \<^verbatim>\<open>validateResponse\<close> reads \<^verbatim>\<open>resp.Command\<close> of the
  request's \<^verbatim>\<open>Response\<close> pointer, which panics when the pointer is nil.
\<close>

definition Respond ::
  "RespondRequest \<Rightarrow> NotificationService
     \<Rightarrow> (error + RespondResponse, NotificationService) outcome" where
  "Respond req srv =
     (case fmlookup (pendingNotifications srv) (RespondRequest.RequestId req) of
        None \<Rightarrow> Returns (Inl (Status DeadlineExceeded)) srv
      | Some p \<Rightarrow>
          (let pending = pending_at srv p in
           (case Response req of
              None \<Rightarrow> Panics
            | Some resp \<Rightarrow>
                if \<not> validateResponse resp (Request (message pending))
                then Returns (Inl (Status InvalidArgument)) srv
                else
                  (case (if \<not> pendingNotification.closed pending
                         then (case send_response p resp srv of
                                 Returns _ srv1 \<Rightarrow> close_pending p srv1
                               | Blocks srv' \<Rightarrow> Blocks srv'
                               | Panics \<Rightarrow> Panics)
                         else Returns () srv) of
                     Returns _ srv2 \<Rightarrow>
                       Returns (Inr RespondResponse)
                         (srv2\<lparr>pendingNotifications :=
                                 fmdrop (SubscribeResponse.RequestId (message pending))
                                   (pendingNotifications srv2)\<rparr>)
                   | Blocks srv' \<Rightarrow> Blocks srv'
                   | Panics \<Rightarrow> Panics))))"

section \<open>States the broker can be in\<close>

text \<open>
  What the registry promises of every subscription it holds: the object is stored under
  its own \<^verbatim>\<open>id\<close>, it was handed out, and it is not closed (eviction and unsubscribe
  delete the entry in the critical section that closes the object).
\<close>

definition registry_ok :: "NotificationService \<Rightarrow> bool" where
  "registry_ok srv \<longleftrightarrow>
     (\<forall>k a. fmlookup (subscriptions srv) k = Some a \<longrightarrow>
        a < subscription_next srv \<and>
        sub_id (subscription_at srv a) = k \<and>
        \<not> chan_closed (channel (subscription_at srv a)) \<and>
        \<not> subscription.once (subscription_at srv a))"

text \<open>
  What holds of every pending notification the dispatcher made: a response channel with
  one slot, the three closed marks in step, nothing buffered while it is open, and a
  non-blocking one closed from the start.
\<close>

definition pending_ok :: "pendingNotification \<Rightarrow> bool" where
  "pending_ok pending \<longleftrightarrow>
     cap (responseChannel pending) = 1 \<and>
     pendingNotification.once pending = pendingNotification.closed pending \<and>
     chan_closed (responseChannel pending) = pendingNotification.closed pending \<and>
     (\<not> pendingNotification.closed pending \<longrightarrow> buf (responseChannel pending) = []) \<and>
     (\<not> isBlocking (Request (message pending)) \<longrightarrow> pendingNotification.closed pending)"

text \<open>
  What the pending table promises: every object handed out is \<open>pending_ok\<close>, every
  entry is stored under the id of its message, and an entry for a blocking request is
  open (\<^verbatim>\<open>Respond\<close> and the cancelled \<^verbatim>\<open>Notify\<close> delete the entry when they close it).
\<close>

definition table_ok :: "NotificationService \<Rightarrow> bool" where
  "table_ok srv \<longleftrightarrow>
     (\<forall>p. p < pending_next srv \<longrightarrow> pending_ok (pending_at srv p)) \<and>
     (\<forall>k p. fmlookup (pendingNotifications srv) k = Some p \<longrightarrow>
        p < pending_next srv \<and>
        SubscribeResponse.RequestId (message (pending_at srv p)) = k \<and>
        (isBlocking (Request (message (pending_at srv p)))
           \<longrightarrow> \<not> pendingNotification.closed (pending_at srv p)))"

text \<open>
  The states of the broker, each with the set \<open>W\<close> of pending notifications whose
  \<^verbatim>\<open>Notify\<close> call is past the dispatcher and still at its \<^verbatim>\<open>select\<close>. The steps are the
  critical sections and the two \<^verbatim>\<open>select\<close> statements, each run by some call at any
  time: the admission check of \<^verbatim>\<open>Notify\<close> is read without the mutex, so it does not
  bound when a dispatch may follow; a round of the loop of \<^verbatim>\<open>Subscribe\<close> and the deferred
  \<^verbatim>\<open>unsubscribeLocked\<close> may come for any subscription.
\<close>

inductive reachable :: "NotificationService \<Rightarrow> addr set \<Rightarrow> bool" where
  init: "reachable NewNotificationService {}"
| dispatch:
    "reachable srv W \<Longrightarrow> range_order (subscriptions srv) order
     \<Longrightarrow> notifySubscribers order req srv = Returns p srv'
     \<Longrightarrow> reachable srv' (insert p W)"
| select:
    "reachable srv W \<Longrightarrow> p \<in> W
     \<Longrightarrow> Notify_select ctx pick p srv = Returns r srv'
     \<Longrightarrow> reachable srv' (W - {p})"
| subscribe:
    "reachable srv W \<Longrightarrow> range_order (pendingNotifications srv) order
     \<Longrightarrow> subscribeLocked order sreq srv = Returns a srv'
     \<Longrightarrow> reachable srv' W"
| receive:
    "reachable srv W \<Longrightarrow> a < subscription_next srv
     \<Longrightarrow> Subscribe_select ctx pick sent a srv = Returns l srv'
     \<Longrightarrow> reachable srv' W"
| unsubscribe:
    "reachable srv W \<Longrightarrow> unsubscribeLocked subscriptionID srv = Returns u srv'
     \<Longrightarrow> reachable srv' W"
| respond:
    "reachable srv W \<Longrightarrow> Respond rr srv = Returns ack srv'
     \<Longrightarrow> reachable srv' W"

text \<open>What the caller sees of a call: its outcome without the state it leaves.\<close>

fun answer :: "('a, 's) outcome \<Rightarrow> ('a, unit) outcome" where
  "answer (Returns r s) = Returns r ()"
| "answer (Blocks s) = Blocks ()"
| "answer Panics = Panics"

text \<open>The state a call leaves, or \<open>d\<close> if it panics.\<close>

fun state_after :: "'s \<Rightarrow> ('a, 's) outcome \<Rightarrow> 's" where
  "state_after d (Returns r s) = s"
| "state_after d (Blocks s) = s"
| "state_after d Panics = d"

section \<open>What the steps do to a stored object\<close>

text \<open>
  The objects the loops and \<^verbatim>\<open>Respond\<close> leave behind, used to state what the functions
  above compute. A subscription after \<^verbatim>\<open>subscription.close()\<close> has run on it while
  open, and after a message was queued on it:
\<close>

definition evicted :: "subscription \<Rightarrow> subscription" where
  "evicted sub = sub\<lparr>channel := (channel sub)\<lparr>chan_closed := True\<rparr>,
                      subscription.closed := True, cancel_called := True,
                      subscription.once := True\<rparr>"

definition delivered :: "SubscribeResponse \<Rightarrow> subscription \<Rightarrow> subscription" where
  "delivered msg sub = sub\<lparr>channel := (channel sub)\<lparr>buf := buf (channel sub) @ [msg]\<rparr>\<rparr>"

text \<open>
  What the fan-out does to a subscription of the registry, and whether it evicts it:
  nothing when it does not support the request, a send when the queue has room, the
  eviction otherwise.
\<close>

definition fanned :: "SubscribeResponse \<Rightarrow> subscription \<Rightarrow> subscription" where
  "fanned msg sub =
     (if \<not> supports sub (Request msg) then sub
      else if length (buf (channel sub)) < cap (channel sub) then delivered msg sub
      else evicted sub)"

definition evicts :: "SubscribeResponse \<Rightarrow> subscription \<Rightarrow> bool" where
  "evicts msg sub \<longleftrightarrow>
     supports sub (Request msg) \<and> \<not> length (buf (channel sub)) < cap (channel sub)"

text \<open>
  The pending notification the dispatcher leaves for a message, and the one
  \<^verbatim>\<open>Respond\<close> leaves when it hands over a response.
\<close>

definition dispatched :: "SubscribeResponse \<Rightarrow> pendingNotification" where
  "dispatched msg =
     (if isBlocking (Request msg)
      then \<lparr>message = msg, responseChannel = make_chan 1, once = False, closed = False\<rparr>
      else \<lparr>message = msg,
            responseChannel = \<lparr>buf = [empty_NotifyResponse], cap = 1, chan_closed = True\<rparr>,
            once = True, closed = True\<rparr>)"

definition responded :: "NotifyResponse \<Rightarrow> pendingNotification \<Rightarrow> pendingNotification" where
  "responded resp pending =
     pending\<lparr>responseChannel := (responseChannel pending)\<lparr>buf := [resp], chan_closed := True\<rparr>,
             pendingNotification.closed := True, pendingNotification.once := True\<rparr>"

text \<open>
  The messages the replay loop queues when it ranges over the keys \<open>ks\<close> for a
  subscriber whose flag is \<open>act\<close>, and the entries it deletes.
\<close>

fun replayed :: "NotificationService \<Rightarrow> bool \<Rightarrow> 64 word list \<Rightarrow> SubscribeResponse list" where
  "replayed srv act [] = []"
| "replayed srv act (k # ks) =
     (case fmlookup (pendingNotifications srv) k of
        None \<Rightarrow> replayed srv act ks
      | Some p \<Rightarrow>
          if NotifyRequest.Active (Request (message (pending_at srv p))) = act
          then message (pending_at srv p) # replayed srv act ks
          else replayed srv act ks)"

definition replay_removes :: "NotificationService \<Rightarrow> bool \<Rightarrow> 64 word \<Rightarrow> bool" where
  "replay_removes srv act k \<longleftrightarrow>
     (case fmlookup (pendingNotifications srv) k of
        None \<Rightarrow> False
      | Some p \<Rightarrow> NotifyRequest.Active (Request (message (pending_at srv p))) = act
                  \<and> \<not> isBlocking (Request (message (pending_at srv p))))"

text \<open>The parts of the state a fan-out, and a replay for the subscription at \<open>a\<close>, leave alone.\<close>

definition same_pending :: "NotificationService \<Rightarrow> NotificationService \<Rightarrow> bool" where
  "same_pending srv srv' \<longleftrightarrow>
     nextNotificationID srv' = nextNotificationID srv \<and>
     pendingNotifications srv' = pendingNotifications srv \<and>
     pending_at srv' = pending_at srv \<and>
     pending_next srv' = pending_next srv \<and>
     nextSubscriptionID srv' = nextSubscriptionID srv \<and>
     subscription_next srv' = subscription_next srv"

definition same_but_replay :: "addr \<Rightarrow> NotificationService \<Rightarrow> NotificationService \<Rightarrow> bool" where
  "same_but_replay a srv srv' \<longleftrightarrow>
     nextNotificationID srv' = nextNotificationID srv \<and>
     pending_at srv' = pending_at srv \<and>
     pending_next srv' = pending_next srv \<and>
     nextSubscriptionID srv' = nextSubscriptionID srv \<and>
     subscription_next srv' = subscription_next srv \<and>
     subscriptions srv' = subscriptions srv \<and>
     (\<forall>a'. a' \<noteq> a \<longrightarrow> subscription_at srv' a' = subscription_at srv a')"

text \<open>
  No \<^verbatim>\<open>Notify\<close> call still at its \<^verbatim>\<open>select\<close> holds a response channel that is closed
  with nothing buffered, and one for a non-blocking request holds the empty response.
\<close>

definition inflight_ok :: "NotificationService \<Rightarrow> addr set \<Rightarrow> bool" where
  "inflight_ok srv W \<longleftrightarrow>
     (\<forall>p. p \<in> W \<longrightarrow> p < pending_next srv \<and>
        (chan_closed (responseChannel (pending_at srv p))
           \<longrightarrow> buf (responseChannel (pending_at srv p)) \<noteq> []) \<and>
        (\<not> isBlocking (Request (message (pending_at srv p)))
           \<longrightarrow> buf (responseChannel (pending_at srv p)) = [empty_NotifyResponse]))"

section \<open>The scenarios of the spec\<close>

text \<open>
  The requests of the end-to-end scenarios of section 8 of the spec: the blocking
  \<^verbatim>\<open>reload?\<close> of scenario 1, the non-blocking \<^verbatim>\<open>x\<close> of scenarios 4 and 5, and the
  blocking request of scenario 7 whose only action is \<^verbatim>\<open>yes\<close>.
\<close>

definition req_reload :: NotifyRequest where
  "req_reload = \<lparr>Level = INFO, Message = ''reload?'', Actions = [''yes'', ''no''],
                  Active = True, Open = None, Preview = None\<rparr>"

definition req_x :: NotifyRequest where
  "req_x = \<lparr>Level = INFO, Message = ''x'', Actions = [],
             Active = True, Open = None, Preview = None\<rparr>"

definition req_yes :: NotifyRequest where
  "req_yes = \<lparr>Level = INFO, Message = ''sure?'', Actions = [''yes''],
               Active = False, Open = None, Preview = None\<rparr>"

text \<open>One order in which a map can be ranged over: its keys ascending.\<close>

definition range_keys :: "(64 word, 'v) fmap \<Rightarrow> 64 word list" where
  "range_keys m = sorted_list_of_set (fmdom' m)"

text \<open>
  The state a \<^verbatim>\<open>Notify\<close> call with a live context leaves, and the state a subscriber
  leaves by joining.
\<close>

definition ran_Notify :: "NotifyRequest \<Rightarrow> NotificationService \<Rightarrow> NotificationService" where
  "ran_Notify req srv =
     state_after srv (Notify None PickChannel (range_keys (subscriptions srv)) req srv)"

definition ran_Subscribe :: "bool \<Rightarrow> NotificationService \<Rightarrow> NotificationService" where
  "ran_Subscribe act srv =
     state_after srv
       (subscribeLocked (range_keys (pendingNotifications srv))
          \<lparr>SubscribeRequest.Active = act\<rparr> srv)"

text \<open>
  \<open>asked\<close>: scenario 7 after the dispatcher, the producer of \<^verbatim>\<open>sure?\<close> at its
  \<^verbatim>\<open>select\<close>. \<open>notified\<close>: \<^verbatim>\<open>x\<close> after the dispatcher, its producer not yet at its
  \<^verbatim>\<open>select\<close>. \<open>informed\<close>: scenario 4 before anyone joins, \<^verbatim>\<open>x\<close> notified and its
  producer answered. \<open>mixed\<close>: \<^verbatim>\<open>x\<close> notified and \<^verbatim>\<open>reload?\<close> waiting, with no subscriber.
  \<open>crowded\<close>: 120 notifications of \<^verbatim>\<open>x\<close> with no subscriber. \<open>joined\<close>: one
  subscriber with \<^verbatim>\<open>active\<close> set. \<open>flooded\<close>: scenario 5, that subscriber never reads
  and \<^verbatim>\<open>x\<close> is notified 100 times; \<open>unread n\<close> is the subscription after \<open>n\<close> of them.
\<close>

definition asked :: NotificationService where
  "asked = state_after NewNotificationService
             (notifySubscribers [] req_yes NewNotificationService)"

definition notified :: NotificationService where
  "notified = state_after NewNotificationService
                (notifySubscribers [] req_x NewNotificationService)"

definition informed :: NotificationService where
  "informed = ran_Notify req_x NewNotificationService"

definition mixed :: NotificationService where
  "mixed = state_after informed (notifySubscribers [] req_reload informed)"

definition crowded :: NotificationService where
  "crowded = (ran_Notify req_x ^^ 120) NewNotificationService"

definition joined :: NotificationService where
  "joined = ran_Subscribe True NewNotificationService"

definition flooded :: NotificationService where
  "flooded = (ran_Notify req_x ^^ 100) joined"

definition unread :: "nat \<Rightarrow> subscription" where
  "unread n =
     \<lparr>sub_id = 0, active = True,
      channel = \<lparr>buf = map (\<lambda>i. \<lparr>SubscribeResponse.RequestId = of_nat i, Request = req_x\<rparr>) [0..<n],
                 cap = 100, chan_closed = False\<rparr>,
      once = False, closed = False, cancel_called = False\<rparr>"




section \<open>Validation\<close>

lemma allowed_iff: "allowed actions action \<longleftrightarrow> action \<in> set actions"
  by (induction actions) auto

lemma validateResponse_iff:
  "validateResponse resp req \<longleftrightarrow>
     (\<exists>command. Command resp = Some command \<and> Cmd command \<noteq> [])
     \<or> (Command resp = None \<and> Action resp = [])
     \<or> (Command resp = None \<and> Action resp \<in> set (Actions req))"
  by (auto simp: validateResponse_def allowed_iff split: option.splits)

lemma Respond_InvalidArgument_iff:
  assumes "fmlookup (pendingNotifications srv) (RespondRequest.RequestId rr) = Some p"
    and "Response rr = Some resp"
  shows "Respond rr srv = Returns (Inl (Status InvalidArgument)) srv
         \<longleftrightarrow> \<not> validateResponse resp (Request (message (pending_at srv p)))"
  using assms
  by (auto simp: Respond_def Let_def split: outcome.splits)

section \<open>The fan-out\<close>

text \<open>The four ways a round of the loop goes, on a registry that is \<open>registry_ok\<close>.\<close>

lemma fan_out_visit_absent:
  "fmlookup (subscriptions srv) k = None \<Longrightarrow> fan_out_visit k msg srv = Returns () srv"
  by (simp add: fan_out_visit_def)

lemma fan_out_visit_unsupported:
  "fmlookup (subscriptions srv) k = Some a \<Longrightarrow> \<not> supports (subscription_at srv a) (Request msg)
   \<Longrightarrow> fan_out_visit k msg srv = Returns () srv"
  by (simp add: fan_out_visit_def)

lemma fan_out_visit_room:
  assumes "registry_ok srv" "fmlookup (subscriptions srv) k = Some a"
    "supports (subscription_at srv a) (Request msg)"
    "length (buf (channel (subscription_at srv a))) < cap (channel (subscription_at srv a))"
  shows "fan_out_visit k msg srv =
           Returns () (srv\<lparr>subscription_at := (subscription_at srv)
              (a := (subscription_at srv a)\<lparr>channel := (channel (subscription_at srv a))
                     \<lparr>buf := buf (channel (subscription_at srv a)) @ [msg]\<rparr>\<rparr>)\<rparr>)"
  using assms by (simp add: fan_out_visit_def registry_ok_def chan_send_def Let_def)

lemma fan_out_visit_full:
  assumes "registry_ok srv" "fmlookup (subscriptions srv) k = Some a"
    "supports (subscription_at srv a) (Request msg)"
    "\<not> length (buf (channel (subscription_at srv a))) < cap (channel (subscription_at srv a))"
  shows "fan_out_visit k msg srv =
           Returns () (srv\<lparr>subscriptions := fmdrop k (subscriptions srv),
                          subscription_at := (subscription_at srv)(a := evicted (subscription_at srv a))\<rparr>)"
  using assms
  by (simp add: Let_def fan_out_visit_def registry_ok_def chan_send_def close_subscription_def
      subscription_close_def chan_close_def evicted_def)

lemma registry_ok_inj:
  "registry_ok srv \<Longrightarrow> fmlookup (subscriptions srv) k = Some a
   \<Longrightarrow> fmlookup (subscriptions srv) k' = Some a \<Longrightarrow> k' = k"
  by (auto simp: registry_ok_def)

lemma fan_out_visit_ok:
  assumes "registry_ok srv"
  shows "\<exists>srv'. fan_out_visit k msg srv = Returns () srv' \<and> registry_ok srv' \<and> same_pending srv srv'
     \<and> (\<forall>k'. fmlookup (subscriptions srv') k' = fmlookup (subscriptions srv) k'
             \<or> k' = k \<and> fmlookup (subscriptions srv') k' = None)
     \<and> (\<forall>a'. fmlookup (subscriptions srv) k \<noteq> Some a'
             \<longrightarrow> subscription_at srv' a' = subscription_at srv a')"
proof (cases "fmlookup (subscriptions srv) k")
  case None
  then show ?thesis using assms by (simp add: fan_out_visit_absent same_pending_def)
next
  case (Some a)
  show ?thesis
  proof (cases "supports (subscription_at srv a) (Request msg)")
    case False
    then show ?thesis using assms Some by (simp add: fan_out_visit_unsupported same_pending_def)
  next
    case True
    show ?thesis
    proof (cases "length (buf (channel (subscription_at srv a))) < cap (channel (subscription_at srv a))")
      case room: True
      show ?thesis
        unfolding fan_out_visit_room[OF assms Some True room]
        using assms Some by (auto simp: registry_ok_def same_pending_def)
    next
      case full: False
      show ?thesis
        unfolding fan_out_visit_full[OF assms Some True full]
        using assms Some by (auto simp: registry_ok_def same_pending_def evicted_def)
    qed
  qed
qed

lemma same_pending_refl: "same_pending srv srv"
  by (simp add: same_pending_def)

lemma same_pending_trans: "same_pending a b \<Longrightarrow> same_pending b c \<Longrightarrow> same_pending a c"
  by (simp add: same_pending_def)

lemma fan_out_ok:
  assumes "registry_ok srv"
  shows "\<exists>srv'. fan_out ks msg srv = Returns () srv' \<and> registry_ok srv' \<and> same_pending srv srv'
     \<and> (\<forall>k'. fmlookup (subscriptions srv') k' = fmlookup (subscriptions srv) k'
             \<or> k' \<in> set ks \<and> fmlookup (subscriptions srv') k' = None)
     \<and> (\<forall>a'. (\<forall>k\<in>set ks. fmlookup (subscriptions srv) k \<noteq> Some a')
             \<longrightarrow> subscription_at srv' a' = subscription_at srv a')"
  using assms
proof (induction ks arbitrary: srv)
  case Nil
  then show ?case by (simp add: same_pending_refl)
next
  case (Cons k ks)
  from fan_out_visit_ok[OF Cons.prems, of k msg]
  obtain srv1 where v: "fan_out_visit k msg srv = Returns () srv1" "registry_ok srv1"
      "same_pending srv srv1"
      "\<And>k'. fmlookup (subscriptions srv1) k' = fmlookup (subscriptions srv) k'
             \<or> k' = k \<and> fmlookup (subscriptions srv1) k' = None"
      "\<And>a'. fmlookup (subscriptions srv) k \<noteq> Some a'
             \<Longrightarrow> subscription_at srv1 a' = subscription_at srv a'"
    by blast
  from Cons.IH[OF v(2)]
  obtain srv' where r: "fan_out ks msg srv1 = Returns () srv'" "registry_ok srv'"
      "same_pending srv1 srv'"
      "\<And>k'. fmlookup (subscriptions srv') k' = fmlookup (subscriptions srv1) k'
             \<or> k' \<in> set ks \<and> fmlookup (subscriptions srv') k' = None"
      "\<And>a'. (\<forall>k\<in>set ks. fmlookup (subscriptions srv1) k \<noteq> Some a')
             \<Longrightarrow> subscription_at srv' a' = subscription_at srv1 a'"
    by blast
  have 1: "fan_out (k # ks) msg srv = Returns () srv'"
    using v(1) r(1) by simp
  have 2: "same_pending srv srv'"
    using v(3) r(3) by (rule same_pending_trans)
  have 3: "\<forall>k'. fmlookup (subscriptions srv') k' = fmlookup (subscriptions srv) k'
             \<or> k' \<in> set (k # ks) \<and> fmlookup (subscriptions srv') k' = None"
    using v(4) r(4) by (metis list.set_intros(1,2))
  have 4: "\<forall>a'. (\<forall>k\<in>set (k # ks). fmlookup (subscriptions srv) k \<noteq> Some a')
             \<longrightarrow> subscription_at srv' a' = subscription_at srv a'"
  proof (intro allI impI)
    fix a' assume a: "\<forall>k\<in>set (k # ks). fmlookup (subscriptions srv) k \<noteq> Some a'"
    then have "subscription_at srv1 a' = subscription_at srv a'" using v(5) by simp
    moreover have "\<forall>k'\<in>set ks. fmlookup (subscriptions srv1) k' \<noteq> Some a'"
      using a v(4) by (metis list.set_intros(2) option.distinct(1))
    ultimately show "subscription_at srv' a' = subscription_at srv a'" using r(5) by simp
  qed
  show ?case using 1 r(2) 2 3 4 by blast
qed

lemma fan_out_visit_at:
  assumes "registry_ok srv" "fmlookup (subscriptions srv) k = Some a"
    "fan_out_visit k msg srv = Returns () srv'"
  shows "subscription_at srv' a = fanned msg (subscription_at srv a)
         \<and> fmlookup (subscriptions srv') k
             = (if evicts msg (subscription_at srv a) then None else Some a)"
proof (cases "supports (subscription_at srv a) (Request msg)")
  case False
  then show ?thesis using assms by (simp add: fan_out_visit_unsupported fanned_def evicts_def)
next
  case True
  show ?thesis
  proof (cases "length (buf (channel (subscription_at srv a))) < cap (channel (subscription_at srv a))")
    case room: True
    show ?thesis
      using assms(3) True room assms(2)
      unfolding fan_out_visit_room[OF assms(1,2) True room]
      by (auto simp: fanned_def evicts_def delivered_def)
  next
    case full: False
    show ?thesis
      using assms(3) True full assms(2)
      unfolding fan_out_visit_full[OF assms(1,2) True full]
      by (auto simp: fanned_def evicts_def)
  qed
qed

lemma fan_out_untouched:
  assumes "registry_ok srv" "fan_out ks msg srv = Returns () srv'" "k \<notin> set ks"
  shows "fmlookup (subscriptions srv') k = fmlookup (subscriptions srv) k
         \<and> (\<forall>a. fmlookup (subscriptions srv) k = Some a
                \<longrightarrow> subscription_at srv' a = subscription_at srv a)"
proof -
  from fan_out_ok[OF assms(1), of ks msg] assms(2)
  have 1: "\<And>k'. fmlookup (subscriptions srv') k' = fmlookup (subscriptions srv) k'
             \<or> k' \<in> set ks \<and> fmlookup (subscriptions srv') k' = None"
    and 2: "\<And>a'. (\<forall>k\<in>set ks. fmlookup (subscriptions srv) k \<noteq> Some a')
             \<Longrightarrow> subscription_at srv' a' = subscription_at srv a'"
    by auto
  have "fmlookup (subscriptions srv') k = fmlookup (subscriptions srv) k"
    using 1[of k] assms(3) by simp
  moreover have "subscription_at srv' a = subscription_at srv a"
    if "fmlookup (subscriptions srv) k = Some a" for a
  proof (rule 2, rule ballI)
    fix k' assume "k' \<in> set ks"
    then have "k' \<noteq> k" using assms(3) by auto
    then show "fmlookup (subscriptions srv) k' \<noteq> Some a"
      using registry_ok_inj[OF assms(1) that] by auto
  qed
  ultimately show ?thesis by simp
qed

lemma fan_out_visited:
  assumes "registry_ok srv" "distinct ks" "k \<in> set ks"
    "fmlookup (subscriptions srv) k = Some a" "fan_out ks msg srv = Returns () srv'"
  shows "subscription_at srv' a = fanned msg (subscription_at srv a)
         \<and> fmlookup (subscriptions srv') k
             = (if evicts msg (subscription_at srv a) then None else Some a)"
  using assms
proof (induction ks arbitrary: srv)
  case Nil
  then show ?case by simp
next
  case (Cons k0 ks)
  from fan_out_visit_ok[OF Cons.prems(1), of k0 msg]
  obtain srv1 where v: "fan_out_visit k0 msg srv = Returns () srv1" "registry_ok srv1"
      "\<And>k'. fmlookup (subscriptions srv1) k' = fmlookup (subscriptions srv) k'
             \<or> k' = k0 \<and> fmlookup (subscriptions srv1) k' = None"
      "\<And>a'. fmlookup (subscriptions srv) k0 \<noteq> Some a'
             \<Longrightarrow> subscription_at srv1 a' = subscription_at srv a'"
    by blast
  have rest: "fan_out ks msg srv1 = Returns () srv'"
    using Cons.prems(5) v(1) by simp
  show ?case
  proof (cases "k = k0")
    case True
    then have notin: "k \<notin> set ks" using Cons.prems(2) by simp
    have at1: "subscription_at srv1 a = fanned msg (subscription_at srv a)"
      and reg1: "fmlookup (subscriptions srv1) k
                 = (if evicts msg (subscription_at srv a) then None else Some a)"
      using fan_out_visit_at[OF Cons.prems(1) Cons.prems(4) v(1)[folded True]] by auto
    from fan_out_ok[OF v(2), of ks msg] rest
    have f1: "\<And>k'. fmlookup (subscriptions srv') k' = fmlookup (subscriptions srv1) k'
             \<or> k' \<in> set ks \<and> fmlookup (subscriptions srv') k' = None"
      and f2: "\<And>a'. (\<forall>k\<in>set ks. fmlookup (subscriptions srv1) k \<noteq> Some a')
             \<Longrightarrow> subscription_at srv' a' = subscription_at srv1 a'"
      by auto
    have "fmlookup (subscriptions srv') k = fmlookup (subscriptions srv1) k"
      using f1[of k] notin by simp
    moreover have "subscription_at srv' a = subscription_at srv1 a"
    proof (rule f2, rule ballI)
      fix k' assume k': "k' \<in> set ks"
      then have ne: "k' \<noteq> k" using notin by auto
      have "fmlookup (subscriptions srv) k' \<noteq> Some a"
        using registry_ok_inj[OF Cons.prems(1) Cons.prems(4)] ne by auto
      then show "fmlookup (subscriptions srv1) k' \<noteq> Some a"
        using v(3)[of k'] by auto
    qed
    ultimately show ?thesis using at1 reg1 by simp
  next
    case False
    then have in_ks: "k \<in> set ks" using Cons.prems(3) by simp
    have reg1: "fmlookup (subscriptions srv1) k = Some a"
      using v(3)[of k] False Cons.prems(4) by simp
    have "fmlookup (subscriptions srv) k0 \<noteq> Some a"
      using registry_ok_inj[OF Cons.prems(1) Cons.prems(4)] False by auto
    then have at1: "subscription_at srv1 a = subscription_at srv a"
      by (rule v(4))
    from Cons.IH[OF v(2) _ in_ks reg1 rest] Cons.prems(2)
    show ?thesis by (simp add: at1)
  qed
qed

section \<open>The dispatcher\<close>

lemma registry_ok_next:
  "registry_ok (srv\<lparr>nextNotificationID := n\<rparr>) = registry_ok srv"
  by (simp add: registry_ok_def)

lemma notifySubscribers_ok:
  assumes "registry_ok srv"
  shows "\<exists>srv1. fan_out order \<lparr>SubscribeResponse.RequestId = nextNotificationID srv, Request = req\<rparr>
                   (srv\<lparr>nextNotificationID := nextNotificationID srv + 1\<rparr>) = Returns () srv1
           \<and> notifySubscribers order req srv =
               Returns (pending_next srv)
                 (srv1\<lparr>pending_at := (pending_at srv)
                          (pending_next srv :=
                             dispatched \<lparr>SubscribeResponse.RequestId = nextNotificationID srv,
                                         Request = req\<rparr>),
                        pending_next := Suc (pending_next srv),
                        pendingNotifications :=
                          fmupd (nextNotificationID srv) (pending_next srv)
                            (pendingNotifications srv)\<rparr>)"
proof -
  let ?msg = "\<lparr>SubscribeResponse.RequestId = nextNotificationID srv, Request = req\<rparr>"
  let ?srv0 = "srv\<lparr>nextNotificationID := nextNotificationID srv + 1\<rparr>"
  have "registry_ok ?srv0" using assms by (simp add: registry_ok_next)
  from fan_out_ok[OF this, of order ?msg]
  obtain srv1 where f: "fan_out order ?msg ?srv0 = Returns () srv1" "same_pending ?srv0 srv1"
    by blast
  have p: "pending_at srv1 = pending_at srv" "pending_next srv1 = pending_next srv"
    "pendingNotifications srv1 = pendingNotifications srv"
    using f(2) by (simp_all add: same_pending_def)
  show ?thesis
    apply (rule exI[of _ srv1])
    apply (simp add: f(1))
    apply (simp add: notifySubscribers_def Let_def f(1) p send_response_def chan_send_def
        make_chan_def close_pending_def pending_close_def chan_close_def dispatched_def)
    done
qed

section \<open>The replay on joining\<close>

lemma replayed_cong:
  assumes "pending_at srv1 = pending_at srv"
    "\<And>k. k \<in> set ks \<Longrightarrow> fmlookup (pendingNotifications srv1) k = fmlookup (pendingNotifications srv) k"
  shows "replayed srv1 act ks = replayed srv act ks"
  using assms by (induction ks) (auto split: option.splits)

lemma replay_removes_cong:
  assumes "pending_at srv1 = pending_at srv"
    "fmlookup (pendingNotifications srv1) k = fmlookup (pendingNotifications srv) k"
  shows "replay_removes srv1 act k = replay_removes srv act k"
  using assms by (simp add: replay_removes_def split: option.splits)

lemma replay_visit_ok:
  assumes "\<not> chan_closed (channel (subscription_at srv a))"
    "length (buf (channel (subscription_at srv a))) < cap (channel (subscription_at srv a))"
  shows "\<exists>srv'. replay_visit k a srv = Returns () srv' \<and> same_but_replay a srv srv'
     \<and> subscription_at srv' a = (subscription_at srv a)
          \<lparr>channel := (channel (subscription_at srv a))
             \<lparr>buf := buf (channel (subscription_at srv a))
                       @ replayed srv (active (subscription_at srv a)) [k]\<rparr>\<rparr>
     \<and> (\<forall>k'. fmlookup (pendingNotifications srv') k'
             = (if k' = k \<and> replay_removes srv (active (subscription_at srv a)) k' then None
                else fmlookup (pendingNotifications srv) k'))"
  using assms
  by (auto simp: replay_visit_def Let_def same_but_replay_def supports_def chan_send_def
      replay_removes_def split: option.splits)

lemma replayed_Cons: "replayed srv act (k # ks) = replayed srv act [k] @ replayed srv act ks"
  by (simp split: option.splits)

lemma length_replayed_single: "length (replayed srv act [k]) \<le> 1"
  by (simp split: option.splits)

lemma same_but_replay_refl: "same_but_replay a srv srv"
  by (simp add: same_but_replay_def)

lemma same_but_replay_trans:
  "same_but_replay a s1 s2 \<Longrightarrow> same_but_replay a s2 s3 \<Longrightarrow> same_but_replay a s1 s3"
  by (simp add: same_but_replay_def)

lemma replay_ok:
  assumes "\<not> chan_closed (channel (subscription_at srv a))"
    "length (buf (channel (subscription_at srv a))) + length ks
       \<le> cap (channel (subscription_at srv a))"
    "distinct ks"
  shows "\<exists>srv'. replay ks a srv = Returns () srv' \<and> same_but_replay a srv srv'
     \<and> subscription_at srv' a = (subscription_at srv a)
          \<lparr>channel := (channel (subscription_at srv a))
             \<lparr>buf := buf (channel (subscription_at srv a))
                       @ replayed srv (active (subscription_at srv a)) ks\<rparr>\<rparr>
     \<and> (\<forall>k'. fmlookup (pendingNotifications srv') k'
             = (if k' \<in> set ks \<and> replay_removes srv (active (subscription_at srv a)) k' then None
                else fmlookup (pendingNotifications srv) k'))"
  using assms
proof (induction ks arbitrary: srv)
  case Nil
  then show ?case by (simp add: same_but_replay_refl)
next
  case (Cons k ks)
  let ?sub = "subscription_at srv a"
  let ?act = "active ?sub"
  have room: "length (buf (channel ?sub)) < cap (channel ?sub)"
    using Cons.prems(2) by simp
  from replay_visit_ok[OF Cons.prems(1) room, of k]
  obtain srv1 where v: "replay_visit k a srv = Returns () srv1" "same_but_replay a srv srv1"
    "subscription_at srv1 a = ?sub\<lparr>channel := (channel ?sub)
             \<lparr>buf := buf (channel ?sub) @ replayed srv ?act [k]\<rparr>\<rparr>"
    "\<And>k'. fmlookup (pendingNotifications srv1) k'
             = (if k' = k \<and> replay_removes srv ?act k' then None
                else fmlookup (pendingNotifications srv) k')"
    by blast
  have open1: "\<not> chan_closed (channel (subscription_at srv1 a))"
    using Cons.prems(1) by (simp add: v(3))
  have room1: "length (buf (channel (subscription_at srv1 a))) + length ks
       \<le> cap (channel (subscription_at srv1 a))"
    using Cons.prems(2) length_replayed_single[of srv ?act k] by (simp add: v(3))
  have d1: "distinct ks" and notin: "k \<notin> set ks" using Cons.prems(3) by auto
  have act1: "active (subscription_at srv1 a) = ?act" by (simp add: v(3))
  from Cons.IH[OF open1 room1 d1]
  obtain srv' where r: "replay ks a srv1 = Returns () srv'" "same_but_replay a srv1 srv'"
    "subscription_at srv' a = (subscription_at srv1 a)
          \<lparr>channel := (channel (subscription_at srv1 a))
             \<lparr>buf := buf (channel (subscription_at srv1 a)) @ replayed srv1 ?act ks\<rparr>\<rparr>"
    "\<And>k'. fmlookup (pendingNotifications srv') k'
             = (if k' \<in> set ks \<and> replay_removes srv1 ?act k' then None
                else fmlookup (pendingNotifications srv1) k')"
    unfolding act1 by blast
  have pa: "pending_at srv1 = pending_at srv"
    using v(2) by (simp add: same_but_replay_def)
  have lk: "fmlookup (pendingNotifications srv1) k' = fmlookup (pendingNotifications srv) k'"
    if "k' \<in> set ks" for k'
    using v(4)[of k'] that notin by auto
  have rp: "replayed srv1 ?act ks = replayed srv ?act ks"
    using pa lk by (rule replayed_cong)
  have rm: "replay_removes srv1 ?act k' = replay_removes srv ?act k'" if "k' \<in> set ks" for k'
    using pa lk[OF that] by (rule replay_removes_cong)
  have 1: "replay (k # ks) a srv = Returns () srv'" using v(1) r(1) by simp
  have 2: "same_but_replay a srv srv'" using v(2) r(2) by (rule same_but_replay_trans)
  have 3: "subscription_at srv' a = ?sub\<lparr>channel := (channel ?sub)
             \<lparr>buf := buf (channel ?sub) @ replayed srv ?act (k # ks)\<rparr>\<rparr>"
    unfolding r(3) v(3) rp replayed_Cons[of srv ?act k ks] by simp
  have 4: "\<forall>k'. fmlookup (pendingNotifications srv') k'
             = (if k' \<in> set (k # ks) \<and> replay_removes srv ?act k' then None
                else fmlookup (pendingNotifications srv) k')"
  proof
    fix k'
    show "fmlookup (pendingNotifications srv') k'
             = (if k' \<in> set (k # ks) \<and> replay_removes srv ?act k' then None
                else fmlookup (pendingNotifications srv) k')"
    proof (cases "k' \<in> set ks")
      case True
      then have "k' \<noteq> k" using notin by auto
      then show ?thesis using r(4)[of k'] v(4)[of k'] rm[OF True] True by simp
    next
      case False
      then show ?thesis using r(4)[of k'] v(4)[of k'] by simp
    qed
  qed
  show ?case using 1 2 3 4 by blast
qed

lemma range_order_length: "range_order m ks \<Longrightarrow> length ks = len_map m"
  by (metis distinct_card len_map_def range_order_def)

lemma replay_removes_in_dom:
  "replay_removes srv act k \<Longrightarrow> k \<in> fmdom' (pendingNotifications srv)"
  by (auto simp: replay_removes_def split: option.splits intro: fmdom'I)

lemma subscribeLocked_ok:
  assumes "range_order (pendingNotifications srv) order"
  shows "\<exists>srv'. subscribeLocked order sreq srv = Returns (subscription_next srv) srv'
     \<and> subscription_at srv' (subscription_next srv) =
         \<lparr>sub_id = nextSubscriptionID srv, active = SubscribeRequest.Active sreq,
          channel = \<lparr>buf = replayed srv (SubscribeRequest.Active sreq) order,
                     cap = max 100 (len_map (pendingNotifications srv)),
                     chan_closed = False\<rparr>,
          once = False, closed = False, cancel_called = False\<rparr>
     \<and> (\<forall>a'. a' \<noteq> subscription_next srv \<longrightarrow> subscription_at srv' a' = subscription_at srv a')
     \<and> subscriptions srv' = fmupd (nextSubscriptionID srv) (subscription_next srv) (subscriptions srv)
     \<and> nextSubscriptionID srv' = nextSubscriptionID srv + 1
     \<and> subscription_next srv' = Suc (subscription_next srv)
     \<and> pending_at srv' = pending_at srv
     \<and> pending_next srv' = pending_next srv
     \<and> nextNotificationID srv' = nextNotificationID srv
     \<and> (\<forall>k. fmlookup (pendingNotifications srv') k
            = (if replay_removes srv (SubscribeRequest.Active sreq) k then None
               else fmlookup (pendingNotifications srv) k))"
proof -
  let ?a = "subscription_next srv"
  let ?act = "SubscribeRequest.Active sreq"
  let ?cap = "max 100 (len_map (pendingNotifications srv))"
  let ?sub = "\<lparr>sub_id = nextSubscriptionID srv, active = ?act, channel = make_chan ?cap,
                 once = False, closed = False, cancel_called = False\<rparr>"
  let ?srv1 = "srv\<lparr>nextSubscriptionID := nextSubscriptionID srv + 1,
                      subscription_at := (subscription_at srv)(?a := ?sub),
                      subscription_next := Suc ?a,
                      subscriptions := fmupd (nextSubscriptionID srv) ?a (subscriptions srv)\<rparr>"
  have len: "length order = len_map (pendingNotifications srv)"
    using assms by (rule range_order_length)
  have d: "distinct order" using assms by (simp add: range_order_def)
  have o: "\<not> chan_closed (channel (subscription_at ?srv1 ?a))"
    by (simp add: make_chan_def)
  have c: "length (buf (channel (subscription_at ?srv1 ?a))) + length order
       \<le> cap (channel (subscription_at ?srv1 ?a))"
    by (simp add: make_chan_def len)
  from replay_ok[OF o c d]
  obtain srv' where r: "replay order ?a ?srv1 = Returns () srv'" "same_but_replay ?a ?srv1 srv'"
    "subscription_at srv' ?a = (subscription_at ?srv1 ?a)
          \<lparr>channel := (channel (subscription_at ?srv1 ?a))
             \<lparr>buf := buf (channel (subscription_at ?srv1 ?a))
                       @ replayed ?srv1 (active (subscription_at ?srv1 ?a)) order\<rparr>\<rparr>"
    "\<And>k'. fmlookup (pendingNotifications srv') k'
             = (if k' \<in> set order \<and> replay_removes ?srv1 (active (subscription_at ?srv1 ?a)) k'
                then None else fmlookup (pendingNotifications ?srv1) k')"
    by blast
  have rp: "replayed ?srv1 ?act order = replayed srv ?act order"
    by (rule replayed_cong) simp_all
  have rm: "replay_removes ?srv1 ?act k = replay_removes srv ?act k" for k
    by (rule replay_removes_cong) simp_all
  have e: "(if SubscriberMaxPendingNotifications > n then SubscriberMaxPendingNotifications else n)
             = max 100 n" for n
    by (simp add: SubscriberMaxPendingNotifications_def max_def)
  have sl: "subscribeLocked order sreq srv = Returns ?a srv'"
    unfolding subscribeLocked_def Let_def e
    using r(1) by simp
  have at: "subscription_at srv' ?a =
         \<lparr>sub_id = nextSubscriptionID srv, active = ?act,
          channel = \<lparr>buf = replayed srv ?act order, cap = ?cap, chan_closed = False\<rparr>,
          once = False, closed = False, cancel_called = False\<rparr>"
    using r(3) rp by (simp add: make_chan_def)
  have lk: "fmlookup (pendingNotifications srv') k
            = (if replay_removes srv ?act k then None else fmlookup (pendingNotifications srv) k)"
    for k
  proof -
    have "replay_removes srv ?act k \<Longrightarrow> k \<in> set order"
      using replay_removes_in_dom[of srv ?act k] assms by (simp add: range_order_def)
    then show ?thesis using r(4)[of k] rm[of k] by auto
  qed
  show ?thesis
    using sl at lk r(2) by (auto simp: same_but_replay_def)
qed

section \<open>Respond on an entry of the table\<close>

lemma table_ok_entry:
  "table_ok srv \<Longrightarrow> fmlookup (pendingNotifications srv) k = Some p
   \<Longrightarrow> p < pending_next srv \<and> pending_ok (pending_at srv p)
       \<and> SubscribeResponse.RequestId (message (pending_at srv p)) = k
       \<and> (isBlocking (Request (message (pending_at srv p)))
            \<longrightarrow> \<not> pendingNotification.closed (pending_at srv p))"
  by (simp add: table_ok_def)

lemma Respond_valid_open:
  assumes "table_ok srv" "fmlookup (pendingNotifications srv) (RespondRequest.RequestId rr) = Some p"
    "Response rr = Some resp" "validateResponse resp (Request (message (pending_at srv p)))"
    "\<not> pendingNotification.closed (pending_at srv p)"
  shows "Respond rr srv = Returns (Inr RespondResponse)
           (srv\<lparr>pendingNotifications :=
                  fmdrop (RespondRequest.RequestId rr) (pendingNotifications srv),
                pending_at := (pending_at srv)(p := responded resp (pending_at srv p))\<rparr>)"
  using table_ok_entry[OF assms(1,2)] assms(2-)
  by (simp add: Respond_def Let_def send_response_def chan_send_def close_pending_def
      pending_close_def chan_close_def pending_ok_def responded_def)

lemma Respond_valid_closed:
  assumes "table_ok srv" "fmlookup (pendingNotifications srv) (RespondRequest.RequestId rr) = Some p"
    "Response rr = Some resp" "validateResponse resp (Request (message (pending_at srv p)))"
    "pendingNotification.closed (pending_at srv p)"
  shows "Respond rr srv = Returns (Inr RespondResponse)
           (srv\<lparr>pendingNotifications :=
                  fmdrop (RespondRequest.RequestId rr) (pendingNotifications srv)\<rparr>)"
  using table_ok_entry[OF assms(1,2)] assms(2-)
  by (simp add: Respond_def Let_def)

lemma pending_ok_responded:
  "pending_ok pending \<Longrightarrow> pending_ok (responded resp pending)"
  by (simp add: pending_ok_def responded_def)

lemma table_ok_drop:
  assumes "table_ok srv"
  shows "table_ok (srv\<lparr>pendingNotifications := fmdrop k (pendingNotifications srv)\<rparr>)"
  using assms by (auto simp: table_ok_def split: if_splits)

lemma table_ok_close_drop:
  assumes "table_ok srv" "p < pending_next srv"
    "pending_ok pending'" "message pending' = message (pending_at srv p)"
  shows "table_ok (srv\<lparr>pendingNotifications :=
                         fmdrop (SubscribeResponse.RequestId (message (pending_at srv p)))
                           (pendingNotifications srv),
                       pending_at := (pending_at srv)(p := pending')\<rparr>)"
  using assms by (auto simp: table_ok_def split: if_splits)

lemma Respond_preserves:
  assumes "table_ok srv" "Respond rr srv = Returns ack srv'"
  shows "table_ok srv' \<and> subscriptions srv' = subscriptions srv
         \<and> subscription_at srv' = subscription_at srv
         \<and> subscription_next srv' = subscription_next srv
         \<and> pending_next srv' = pending_next srv
         \<and> (\<forall>q. pending_at srv' q = pending_at srv q
                \<or> (chan_closed (responseChannel (pending_at srv' q))
                    \<and> buf (responseChannel (pending_at srv' q)) \<noteq> []
                    \<and> isBlocking (Request (message (pending_at srv' q)))))"
proof (cases "fmlookup (pendingNotifications srv) (RespondRequest.RequestId rr)")
  case None
  then show ?thesis using assms by (simp add: Respond_def)
next
  case (Some p)
  note e = table_ok_entry[OF assms(1) Some]
  show ?thesis
  proof (cases "Response rr")
    case None
    then show ?thesis using assms Some by (simp add: Respond_def)
  next
    case r: (Some resp)
    show ?thesis
    proof (cases "validateResponse resp (Request (message (pending_at srv p)))")
      case False
      then show ?thesis using assms Some r by (simp add: Respond_def)
    next
      case True
      show ?thesis
      proof (cases "pendingNotification.closed (pending_at srv p)")
        case c: True
        show ?thesis
          using assms(2) unfolding Respond_valid_closed[OF assms(1) Some r True c]
          using table_ok_drop[OF assms(1)] by auto
      next
        case c: False
        have m: "message (responded resp (pending_at srv p)) = message (pending_at srv p)"
          by (simp add: responded_def)
        have po: "pending_ok (responded resp (pending_at srv p))"
          using e by (simp add: pending_ok_responded)
        have t: "table_ok (srv\<lparr>pendingNotifications :=
                  fmdrop (RespondRequest.RequestId rr) (pendingNotifications srv),
                pending_at := (pending_at srv)(p := responded resp (pending_at srv p))\<rparr>)"
          using table_ok_close_drop[OF assms(1) _ po m] e by simp
        show ?thesis
          using assms(2) unfolding Respond_valid_open[OF assms(1) Some r True c]
          using t e c by (auto simp: responded_def pending_ok_def split: if_splits)
      qed
    qed
  qed
qed

section \<open>The select of Notify\<close>

lemma pending_close_ok:
  assumes "pending_ok pending"
  shows "\<exists>pending'. pending_close pending = Some pending' \<and> pending_ok pending'
           \<and> message pending' = message pending
           \<and> pendingNotification.closed pending'
           \<and> chan_closed (responseChannel pending')
           \<and> buf (responseChannel pending') = buf (responseChannel pending)"
  using assms by (auto simp: pending_close_def pending_ok_def chan_close_def)

lemma table_ok_update:
  assumes "table_ok srv" "p < pending_next srv" "pending_ok pending'"
    "message pending' = message (pending_at srv p)"
    "pendingNotification.closed pending' = pendingNotification.closed (pending_at srv p)"
  shows "table_ok (srv\<lparr>pending_at := (pending_at srv)(p := pending')\<rparr>)"
  using assms by (auto simp: table_ok_def)

lemma Notify_received_preserves:
  assumes "table_ok srv" "p < pending_next srv" "Notify_received p srv = Returns r srv'"
  shows "table_ok srv' \<and> subscriptions srv' = subscriptions srv
         \<and> subscription_at srv' = subscription_at srv
         \<and> subscription_next srv' = subscription_next srv
         \<and> pending_next srv' = pending_next srv
         \<and> pendingNotifications srv' = pendingNotifications srv
         \<and> (\<forall>q. q \<noteq> p \<longrightarrow> pending_at srv' q = pending_at srv q)"
proof (cases "chan_recv (responseChannel (pending_at srv p))")
  case (Received resp ch)
  let ?pd = "(pending_at srv p)\<lparr>responseChannel := ch\<rparr>"
  have ok: "pending_ok (pending_at srv p)" using assms(1,2) by (simp add: table_ok_def)
  have ch: "ch = (responseChannel (pending_at srv p))\<lparr>buf := tl (buf (responseChannel (pending_at srv p)))\<rparr>"
    "buf (responseChannel (pending_at srv p)) \<noteq> []"
    using Received by (auto simp: chan_recv_def split: list.splits if_splits)
  have "pending_ok ?pd" using ok ch by (auto simp: pending_ok_def)
  from table_ok_update[OF assms(1,2) this]
  have "table_ok (srv\<lparr>pending_at := (pending_at srv)(p := ?pd)\<rparr>)" by simp
  then show ?thesis using assms(3) Received by (auto simp: Notify_received_def Let_def)
next
  case ClosedEmpty
  then show ?thesis using assms by (auto simp: Notify_received_def Let_def)
next
  case NotReady
  then show ?thesis using assms by (auto simp: Notify_received_def Let_def)
qed

lemma Notify_cancelled_preserves:
  assumes "table_ok srv" "p < pending_next srv" "Notify_cancelled e p srv = Returns r srv'"
  shows "table_ok srv' \<and> subscriptions srv' = subscriptions srv
         \<and> subscription_at srv' = subscription_at srv
         \<and> subscription_next srv' = subscription_next srv
         \<and> pending_next srv' = pending_next srv
         \<and> (\<forall>q. q \<noteq> p \<longrightarrow> pending_at srv' q = pending_at srv q)
         \<and> r = Inl (ContextErr e)"
proof (cases "fmlookup (pendingNotifications srv)
                (SubscribeResponse.RequestId (message (pending_at srv p)))")
  case None
  then show ?thesis using assms by (auto simp: Notify_cancelled_def Let_def)
next
  case (Some q)
  have ok: "pending_ok (pending_at srv p)" using assms(1,2) by (simp add: table_ok_def)
  from pending_close_ok[OF ok]
  obtain pd where pd: "pending_close (pending_at srv p) = Some pd" "pending_ok pd"
    "message pd = message (pending_at srv p)"
    by blast
  from table_ok_close_drop[OF assms(1,2) pd(2,3)]
  show ?thesis
    using assms(3) Some pd(1)
    by (auto simp: Notify_cancelled_def Let_def close_pending_def)
qed

lemma Notify_select_preserves:
  assumes "table_ok srv" "p < pending_next srv" "Notify_select ctx pick p srv = Returns r srv'"
  shows "table_ok srv' \<and> subscriptions srv' = subscriptions srv
         \<and> subscription_at srv' = subscription_at srv
         \<and> subscription_next srv' = subscription_next srv
         \<and> pending_next srv' = pending_next srv
         \<and> (\<forall>q. q \<noteq> p \<longrightarrow> pending_at srv' q = pending_at srv q)"
proof -
  have "(\<exists>e. Notify_cancelled e p srv = Returns r srv') \<or> Notify_received p srv = Returns r srv'"
    using assms(3)
    by (auto simp: Notify_select_def split: received.splits option.splits if_splits)
  then show ?thesis
    using Notify_cancelled_preserves[OF assms(1,2)] Notify_received_preserves[OF assms(1,2)]
    by blast
qed




section \<open>Every step keeps the state well formed\<close>

lemma registry_okD:
  "registry_ok srv \<Longrightarrow> fmlookup (subscriptions srv) k = Some a
   \<Longrightarrow> a < subscription_next srv \<and> sub_id (subscription_at srv a) = k
       \<and> \<not> chan_closed (channel (subscription_at srv a))
       \<and> \<not> subscription.once (subscription_at srv a)"
  by (simp add: registry_ok_def)

lemma registry_ok_channel:
  assumes "registry_ok srv" "chan_closed ch = chan_closed (channel (subscription_at srv a))"
  shows "registry_ok (srv\<lparr>subscription_at := (subscription_at srv)
            (a := (subscription_at srv a)\<lparr>channel := ch\<rparr>)\<rparr>)"
  unfolding registry_ok_def
proof (intro allI impI)
  fix k a'
  assume "fmlookup (subscriptions (srv\<lparr>subscription_at := (subscription_at srv)
            (a := (subscription_at srv a)\<lparr>channel := ch\<rparr>)\<rparr>)) k = Some a'"
  then have "fmlookup (subscriptions srv) k = Some a'" by simp
  from registry_okD[OF assms(1) this] assms(2)
  show "a' < subscription_next (srv\<lparr>subscription_at := (subscription_at srv)
            (a := (subscription_at srv a)\<lparr>channel := ch\<rparr>)\<rparr>) \<and>
        sub_id (subscription_at (srv\<lparr>subscription_at := (subscription_at srv)
            (a := (subscription_at srv a)\<lparr>channel := ch\<rparr>)\<rparr>) a') = k \<and>
        \<not> chan_closed (channel (subscription_at (srv\<lparr>subscription_at := (subscription_at srv)
            (a := (subscription_at srv a)\<lparr>channel := ch\<rparr>)\<rparr>) a')) \<and>
        \<not> subscription.once (subscription_at (srv\<lparr>subscription_at := (subscription_at srv)
            (a := (subscription_at srv a)\<lparr>channel := ch\<rparr>)\<rparr>) a')"
    by (cases "a' = a") simp_all
qed

lemma registry_ok_drop:
  assumes "registry_ok srv" "fmlookup (subscriptions srv) k = Some a"
  shows "registry_ok (srv\<lparr>subscriptions := fmdrop k (subscriptions srv),
                           subscription_at := (subscription_at srv)(a := sub')\<rparr>)"
  unfolding registry_ok_def
proof (intro allI impI)
  fix k' a'
  assume "fmlookup (subscriptions (srv\<lparr>subscriptions := fmdrop k (subscriptions srv),
                           subscription_at := (subscription_at srv)(a := sub')\<rparr>)) k' = Some a'"
  then have l: "fmlookup (subscriptions srv) k' = Some a'" and ne: "k' \<noteq> k"
    by (auto split: if_splits)
  have "a' \<noteq> a" using registry_ok_inj[OF assms(1) l, of k] assms(2) ne by auto
  with registry_okD[OF assms(1) l]
  show "a' < subscription_next (srv\<lparr>subscriptions := fmdrop k (subscriptions srv),
                           subscription_at := (subscription_at srv)(a := sub')\<rparr>) \<and>
        sub_id (subscription_at (srv\<lparr>subscriptions := fmdrop k (subscriptions srv),
                           subscription_at := (subscription_at srv)(a := sub')\<rparr>) a') = k' \<and>
        \<not> chan_closed (channel (subscription_at (srv\<lparr>subscriptions := fmdrop k (subscriptions srv),
                           subscription_at := (subscription_at srv)(a := sub')\<rparr>) a')) \<and>
        \<not> subscription.once (subscription_at (srv\<lparr>subscriptions := fmdrop k (subscriptions srv),
                           subscription_at := (subscription_at srv)(a := sub')\<rparr>) a')"
    by simp
qed

lemma registry_ok_cong:
  "subscriptions s' = subscriptions s \<Longrightarrow> subscription_at s' = subscription_at s
   \<Longrightarrow> subscription_next s' = subscription_next s \<Longrightarrow> registry_ok s' = registry_ok s"
  by (simp add: registry_ok_def)

lemma table_ok_cong:
  "pendingNotifications s' = pendingNotifications s \<Longrightarrow> pending_at s' = pending_at s
   \<Longrightarrow> pending_next s' = pending_next s \<Longrightarrow> table_ok s' = table_ok s"
  by (simp add: table_ok_def)

lemma pending_ok_dispatched: "pending_ok (dispatched msg)"
  by (simp add: pending_ok_def dispatched_def make_chan_def)

lemma table_ok_dispatch:
  assumes "table_ok srv"
    "pendingNotifications s' = fmupd k (pending_next srv) (pendingNotifications srv)"
    "pending_at s' = (pending_at srv)
        (pending_next srv := dispatched \<lparr>SubscribeResponse.RequestId = k, Request = req\<rparr>)"
    "pending_next s' = Suc (pending_next srv)"
  shows "table_ok s'"
  unfolding table_ok_def
proof (intro conjI allI impI)
  fix p assume "p < pending_next s'"
  then show "pending_ok (pending_at s' p)"
    using assms by (auto simp: table_ok_def pending_ok_dispatched less_Suc_eq)
next
  fix k' p assume l: "fmlookup (pendingNotifications s') k' = Some p"
  have "p < pending_next s' \<and> SubscribeResponse.RequestId (message (pending_at s' p)) = k'
        \<and> (isBlocking (Request (message (pending_at s' p)))
          \<longrightarrow> \<not> pendingNotification.closed (pending_at s' p))"
  proof (cases "k' = k")
    case True
    then have "p = pending_next srv" using l assms(2) by simp
    then show ?thesis using True assms(3,4) by (simp add: dispatched_def)
  next
    case False
    then have l0: "fmlookup (pendingNotifications srv) k' = Some p" using l assms(2) by simp
    note e = table_ok_entry[OF assms(1) l0]
    then have "pending_at s' p = pending_at srv p" using assms(3) by simp
    then show ?thesis using e assms(4) by simp
  qed
  then show "p < pending_next s'"
    "SubscribeResponse.RequestId (message (pending_at s' p)) = k'"
    "isBlocking (Request (message (pending_at s' p)))
          \<Longrightarrow> \<not> pendingNotification.closed (pending_at s' p)"
    by simp_all
qed

lemma notifySubscribers_preserves:
  assumes "registry_ok srv" "table_ok srv" "notifySubscribers order req srv = Returns p srv'"
  shows "registry_ok srv' \<and> table_ok srv' \<and> p = pending_next srv
         \<and> pending_next srv' = Suc (pending_next srv)
         \<and> pending_at srv' = (pending_at srv)
              (p := dispatched \<lparr>SubscribeResponse.RequestId = nextNotificationID srv,
                               Request = req\<rparr>)"
proof -
  let ?msg = "\<lparr>SubscribeResponse.RequestId = nextNotificationID srv, Request = req\<rparr>"
  let ?srv0 = "srv\<lparr>nextNotificationID := nextNotificationID srv + 1\<rparr>"
  have r0: "registry_ok ?srv0" using assms(1) by (simp add: registry_ok_next)
  from fan_out_ok[OF r0, of order ?msg]
  obtain srv1 where f: "fan_out order ?msg ?srv0 = Returns () srv1" "registry_ok srv1"
    by blast
  from notifySubscribers_ok[OF assms(1), of order req] f(1) assms(3)
  have e: "p = pending_next srv"
    "srv' = srv1\<lparr>pending_at := (pending_at srv)(pending_next srv := dispatched ?msg),
                 pending_next := Suc (pending_next srv),
                 pendingNotifications :=
                   fmupd (nextNotificationID srv) (pending_next srv) (pendingNotifications srv)\<rparr>"
    by auto
  have "registry_ok srv'"
    using f(2) registry_ok_cong[of srv' srv1] by (simp add: e(2))
  moreover have "table_ok srv'"
    by (rule table_ok_dispatch[OF assms(2)]) (simp_all add: e(2))
  ultimately show ?thesis by (simp add: e)
qed

lemma subscribeLocked_preserves:
  assumes "registry_ok srv" "table_ok srv" "range_order (pendingNotifications srv) order"
    "subscribeLocked order sreq srv = Returns a srv'"
  shows "registry_ok srv' \<and> table_ok srv' \<and> pending_at srv' = pending_at srv
         \<and> pending_next srv' = pending_next srv"
proof -
  from subscribeLocked_ok[OF assms(3), of sreq] assms(4)
  have e: "a = subscription_next srv"
    "subscription_at srv' (subscription_next srv) =
         \<lparr>sub_id = nextSubscriptionID srv, active = SubscribeRequest.Active sreq,
          channel = \<lparr>buf = replayed srv (SubscribeRequest.Active sreq) order,
                     cap = max 100 (len_map (pendingNotifications srv)),
                     chan_closed = False\<rparr>,
          once = False, closed = False, cancel_called = False\<rparr>"
    "\<And>a'. a' \<noteq> subscription_next srv \<Longrightarrow> subscription_at srv' a' = subscription_at srv a'"
    "subscriptions srv' = fmupd (nextSubscriptionID srv) (subscription_next srv) (subscriptions srv)"
    "subscription_next srv' = Suc (subscription_next srv)"
    "pending_at srv' = pending_at srv"
    "pending_next srv' = pending_next srv"
    "\<And>k. fmlookup (pendingNotifications srv') k
            = (if replay_removes srv (SubscribeRequest.Active sreq) k then None
               else fmlookup (pendingNotifications srv) k)"
    by auto
  have "registry_ok srv'"
    unfolding registry_ok_def
  proof (intro allI impI)
    fix k a' assume l: "fmlookup (subscriptions srv') k = Some a'"
    show "a' < subscription_next srv' \<and> sub_id (subscription_at srv' a') = k \<and>
          \<not> chan_closed (channel (subscription_at srv' a')) \<and>
          \<not> subscription.once (subscription_at srv' a')"
    proof (cases "k = nextSubscriptionID srv")
      case True
      then have "a' = subscription_next srv" using l by (simp add: e(4))
      then show ?thesis using True by (simp add: e(2,5))
    next
      case False
      then have l0: "fmlookup (subscriptions srv) k = Some a'" using l by (simp add: e(4))
      note d = registry_okD[OF assms(1) l0]
      then have "subscription_at srv' a' = subscription_at srv a'" using e(3)[of a'] by simp
      then show ?thesis using d by (simp add: e(5))
    qed
  qed
  moreover have "table_ok srv'"
    using assms(2) unfolding table_ok_def e(6,7)
    by (auto simp: e(8) split: if_splits)
  ultimately show ?thesis by (simp add: e(6,7))
qed

lemma Subscribe_select_preserves:
  assumes "registry_ok srv" "Subscribe_select ctx pick sent a srv = Returns l srv'"
  shows "registry_ok srv' \<and> pendingNotifications srv' = pendingNotifications srv
         \<and> pending_at srv' = pending_at srv \<and> pending_next srv' = pending_next srv"
proof -
  have "srv' = srv \<or> (\<exists>ch. srv' = srv\<lparr>subscription_at := (subscription_at srv)
           (a := (subscription_at srv a)\<lparr>channel := ch\<rparr>)\<rparr>
            \<and> chan_closed ch = chan_closed (channel (subscription_at srv a)))"
    using assms(2)
    by (auto simp: Subscribe_select_def Let_def chan_recv_def
        split: received.splits option.splits if_splits list.splits)
  then show ?thesis
    using assms(1) registry_ok_channel[OF assms(1)] by auto
qed

lemma unsubscribeLocked_preserves:
  assumes "registry_ok srv" "unsubscribeLocked subscriptionID srv = Returns u srv'"
  shows "registry_ok srv' \<and> pendingNotifications srv' = pendingNotifications srv
         \<and> pending_at srv' = pending_at srv \<and> pending_next srv' = pending_next srv"
proof (cases "fmlookup (subscriptions srv) subscriptionID")
  case None
  then show ?thesis using assms by (simp add: unsubscribeLocked_def)
next
  case (Some a)
  then have k: "sub_id (subscription_at srv a) = subscriptionID"
    "\<not> subscription.once (subscription_at srv a)"
    "\<not> chan_closed (channel (subscription_at srv a))"
    using assms(1) by (auto simp: registry_ok_def)
  have e: "srv' = srv\<lparr>subscriptions := fmdrop subscriptionID (subscriptions srv),
                      subscription_at := (subscription_at srv)(a := evicted (subscription_at srv a))\<rparr>"
    using assms(2) Some k
    by (simp add: unsubscribeLocked_def close_subscription_def subscription_close_def
        chan_close_def evicted_def)
  have "registry_ok srv'"
    unfolding e using assms(1) Some by (rule registry_ok_drop)
  then show ?thesis by (simp add: e)
qed




lemma reachable_inv:
  "reachable srv W \<Longrightarrow> registry_ok srv \<and> table_ok srv \<and> inflight_ok srv W"
proof (induction rule: reachable.induct)
  case init
  show ?case
    by (simp add: registry_ok_def table_ok_def inflight_ok_def NewNotificationService_def)
next
  case (dispatch srv W order req p srv')
  then have i: "registry_ok srv" "table_ok srv" "inflight_ok srv W" by simp_all
  note n = notifySubscribers_preserves[OF i(1,2) dispatch.hyps(3)]
  have "inflight_ok srv' (insert p W)"
    unfolding inflight_ok_def
  proof (intro allI impI)
    fix q assume q: "q \<in> insert p W"
    show "q < pending_next srv' \<and>
          (chan_closed (responseChannel (pending_at srv' q))
             \<longrightarrow> buf (responseChannel (pending_at srv' q)) \<noteq> []) \<and>
          (\<not> isBlocking (Request (message (pending_at srv' q)))
             \<longrightarrow> buf (responseChannel (pending_at srv' q)) = [empty_NotifyResponse])"
    proof (cases "q = p")
      case True
      then show ?thesis using n by (simp add: dispatched_def make_chan_def)
    next
      case False
      then have "q \<in> W" using q by simp
      then have "q < pending_next srv \<and>
          (chan_closed (responseChannel (pending_at srv q))
             \<longrightarrow> buf (responseChannel (pending_at srv q)) \<noteq> []) \<and>
          (\<not> isBlocking (Request (message (pending_at srv q)))
             \<longrightarrow> buf (responseChannel (pending_at srv q)) = [empty_NotifyResponse])"
        using i(3) by (simp add: inflight_ok_def)
      then show ?thesis using n False by simp
    qed
  qed
  then show ?case using n by simp
next
  case (select srv W p ctx pick r srv')
  then have i: "registry_ok srv" "table_ok srv" "inflight_ok srv W" by simp_all
  have p: "p < pending_next srv" using i(3) select.hyps(2) by (simp add: inflight_ok_def)
  note n = Notify_select_preserves[OF i(2) p select.hyps(3)]
  have "registry_ok srv'" using i(1) n registry_ok_cong[of srv' srv] by simp
  moreover have "inflight_ok srv' (W - {p})"
    using i(3) n by (simp add: inflight_ok_def)
  ultimately show ?case using n by simp
next
  case (subscribe srv W order sreq a srv')
  then have i: "registry_ok srv" "table_ok srv" "inflight_ok srv W" by simp_all
  note n = subscribeLocked_preserves[OF i(1,2) subscribe.hyps(2,3)]
  have "inflight_ok srv' W" using i(3) n by (simp add: inflight_ok_def)
  then show ?case using n by simp
next
  case (receive srv W a ctx pick sent l srv')
  then have i: "registry_ok srv" "table_ok srv" "inflight_ok srv W" by simp_all
  note n = Subscribe_select_preserves[OF i(1) receive.hyps(3)]
  have "table_ok srv'" using i(2) n table_ok_cong[of srv' srv] by simp
  moreover have "inflight_ok srv' W" using i(3) n by (simp add: inflight_ok_def)
  ultimately show ?case using n by simp
next
  case (unsubscribe srv W subscriptionID u srv')
  then have i: "registry_ok srv" "table_ok srv" "inflight_ok srv W" by simp_all
  note n = unsubscribeLocked_preserves[OF i(1) unsubscribe.hyps(2)]
  have "table_ok srv'" using i(2) n table_ok_cong[of srv' srv] by simp
  moreover have "inflight_ok srv' W" using i(3) n by (simp add: inflight_ok_def)
  ultimately show ?case using n by simp
next
  case (respond srv W rr ack srv')
  then have i: "registry_ok srv" "table_ok srv" "inflight_ok srv W" by simp_all
  note n = Respond_preserves[OF i(2) respond.hyps(2)]
  have "registry_ok srv'" using i(1) n registry_ok_cong[of srv' srv] by simp
  moreover have "inflight_ok srv' W"
    unfolding inflight_ok_def
  proof (intro allI impI)
    fix q assume "q \<in> W"
    then have "q < pending_next srv \<and>
          (chan_closed (responseChannel (pending_at srv q))
             \<longrightarrow> buf (responseChannel (pending_at srv q)) \<noteq> []) \<and>
          (\<not> isBlocking (Request (message (pending_at srv q)))
             \<longrightarrow> buf (responseChannel (pending_at srv q)) = [empty_NotifyResponse])"
      using i(3) by (simp add: inflight_ok_def)
    moreover have "pending_at srv' q = pending_at srv q
                \<or> (chan_closed (responseChannel (pending_at srv' q))
                    \<and> buf (responseChannel (pending_at srv' q)) \<noteq> []
                    \<and> isBlocking (Request (message (pending_at srv' q))))"
      using n by blast
    moreover have "pending_next srv' = pending_next srv" using n by simp
    ultimately show "q < pending_next srv' \<and>
          (chan_closed (responseChannel (pending_at srv' q))
             \<longrightarrow> buf (responseChannel (pending_at srv' q)) \<noteq> []) \<and>
          (\<not> isBlocking (Request (message (pending_at srv' q)))
             \<longrightarrow> buf (responseChannel (pending_at srv' q)) = [empty_NotifyResponse])"
      by auto
  qed
  ultimately show ?case using n by simp
qed

section \<open>What Notify answers\<close>

text \<open>
  The answer of \<^verbatim>\<open>Notify\<close> depends on the pending table and the pending notifications
  only, not on the registry.
\<close>

lemma Notify_select_answer:
  assumes "pending_at s = pending_at t" "pendingNotifications s = pendingNotifications t"
  shows "answer (Notify_select ctx pick p s) = answer (Notify_select ctx pick p t)"
  using assms
  by (auto simp: Notify_select_def Notify_received_def Notify_cancelled_def close_pending_def
      Let_def split: received.splits option.splits)

lemma Notify_answer:
  assumes "registry_ok srv"
  shows "answer (Notify ctx pick order req srv)
         = answer (Notify ctx pick [] req (srv\<lparr>subscriptions := fmempty\<rparr>))"
proof (cases "len_map (pendingNotifications srv) \<ge> NotifierMaxPendingNotifications")
  case True
  then show ?thesis by (simp add: Notify_def)
next
  case False
  have r: "registry_ok (srv\<lparr>subscriptions := fmempty\<rparr>)" by (simp add: registry_ok_def)
  from notifySubscribers_ok[OF assms, of order req]
  obtain srv1 where 1: "notifySubscribers order req srv =
               Returns (pending_next srv)
                 (srv1\<lparr>pending_at := (pending_at srv)
                          (pending_next srv :=
                             dispatched \<lparr>SubscribeResponse.RequestId = nextNotificationID srv,
                                         Request = req\<rparr>),
                        pending_next := Suc (pending_next srv),
                        pendingNotifications :=
                          fmupd (nextNotificationID srv) (pending_next srv)
                            (pendingNotifications srv)\<rparr>)"
    by blast
  from notifySubscribers_ok[OF r, of "[]" req]
  obtain srv2 where 2: "notifySubscribers [] req (srv\<lparr>subscriptions := fmempty\<rparr>) =
               Returns (pending_next srv)
                 (srv2\<lparr>pending_at := (pending_at srv)
                          (pending_next srv :=
                             dispatched \<lparr>SubscribeResponse.RequestId = nextNotificationID srv,
                                         Request = req\<rparr>),
                        pending_next := Suc (pending_next srv),
                        pendingNotifications :=
                          fmupd (nextNotificationID srv) (pending_next srv)
                            (pendingNotifications srv)\<rparr>)"
    by auto
  show ?thesis
    using False by (simp add: Notify_def 1 2 Notify_select_answer)
qed

lemma Notify_info_effect:
  assumes "registry_ok srv" "\<not> isBlocking req"
    "len_map (pendingNotifications srv) < 120" "ctx = None \<or> pick = PickChannel"
  shows "\<exists>srv1. fan_out order \<lparr>SubscribeResponse.RequestId = nextNotificationID srv, Request = req\<rparr>
                   (srv\<lparr>nextNotificationID := nextNotificationID srv + 1\<rparr>) = Returns () srv1
     \<and> notifySubscribers order req srv =
           Returns (pending_next srv)
             (srv1\<lparr>pending_at := (pending_at srv)
                      (pending_next srv :=
                         dispatched \<lparr>SubscribeResponse.RequestId = nextNotificationID srv,
                                     Request = req\<rparr>),
                    pending_next := Suc (pending_next srv),
                    pendingNotifications :=
                      fmupd (nextNotificationID srv) (pending_next srv)
                        (pendingNotifications srv)\<rparr>)
     \<and> Notify ctx pick order req srv =
           Returns (Inr empty_NotifyResponse)
             (srv1\<lparr>pending_at := (pending_at srv)
                      (pending_next srv :=
                         \<lparr>message = \<lparr>SubscribeResponse.RequestId = nextNotificationID srv,
                                      Request = req\<rparr>,
                          responseChannel = \<lparr>buf = [], cap = 1, chan_closed = True\<rparr>,
                          once = True, closed = True\<rparr>),
                    pending_next := Suc (pending_next srv),
                    pendingNotifications :=
                      fmupd (nextNotificationID srv) (pending_next srv)
                        (pendingNotifications srv)\<rparr>)"
proof -
  from notifySubscribers_ok[OF assms(1), of order req]
  obtain srv1 where 1: "fan_out order \<lparr>SubscribeResponse.RequestId = nextNotificationID srv, Request = req\<rparr>
                   (srv\<lparr>nextNotificationID := nextNotificationID srv + 1\<rparr>) = Returns () srv1"
    "notifySubscribers order req srv =
               Returns (pending_next srv)
                 (srv1\<lparr>pending_at := (pending_at srv)
                          (pending_next srv :=
                             dispatched \<lparr>SubscribeResponse.RequestId = nextNotificationID srv,
                                         Request = req\<rparr>),
                        pending_next := Suc (pending_next srv),
                        pendingNotifications :=
                          fmupd (nextNotificationID srv) (pending_next srv)
                            (pendingNotifications srv)\<rparr>)"
    by blast
  show ?thesis
    apply (rule exI[of _ srv1])
    apply (simp add: 1)
    using assms(2,3,4)
    apply (auto simp: Notify_def 1 NotifierMaxPendingNotifications_def Notify_select_def
        Notify_received_def chan_recv_def dispatched_def Let_def split: option.splits)
    done
qed

lemma range_order_mem:
  "range_order m ks \<Longrightarrow> fmlookup m k = Some v \<Longrightarrow> k \<in> set ks \<and> distinct ks"
  by (auto simp: range_order_def intro: fmdom'I)

lemma notifySubscribers_subscription:
  assumes "registry_ok srv" "range_order (subscriptions srv) order"
    "fmlookup (subscriptions srv) k = Some a"
    "notifySubscribers order req srv = Returns p srv'"
  shows "subscription_at srv' a
           = fanned \<lparr>SubscribeResponse.RequestId = nextNotificationID srv, Request = req\<rparr>
               (subscription_at srv a)
         \<and> fmlookup (subscriptions srv') k
           = (if evicts \<lparr>SubscribeResponse.RequestId = nextNotificationID srv, Request = req\<rparr>
                   (subscription_at srv a)
              then None else Some a)"
proof -
  let ?msg = "\<lparr>SubscribeResponse.RequestId = nextNotificationID srv, Request = req\<rparr>"
  let ?srv0 = "srv\<lparr>nextNotificationID := nextNotificationID srv + 1\<rparr>"
  have r0: "registry_ok ?srv0" using assms(1) by (simp add: registry_ok_next)
  from notifySubscribers_ok[OF assms(1), of order req] assms(4)
  obtain srv1 where f: "fan_out order ?msg ?srv0 = Returns () srv1"
    and e: "srv' = srv1\<lparr>pending_at := (pending_at srv)(pending_next srv := dispatched ?msg),
                 pending_next := Suc (pending_next srv),
                 pendingNotifications :=
                   fmupd (nextNotificationID srv) (pending_next srv) (pendingNotifications srv)\<rparr>"
    by auto
  have l0: "fmlookup (subscriptions ?srv0) k = Some a" using assms(3) by simp
  from range_order_mem[OF assms(2,3)] have m: "k \<in> set order" "distinct order" by auto
  from fan_out_visited[OF r0 m(2) m(1) l0 f]
  show ?thesis by (simp add: e)
qed

lemma isBlocking_iff:
  "isBlocking req \<longleftrightarrow> Actions req \<noteq> [] \<or> Open req \<noteq> None \<or> Preview req \<noteq> None"
  by (simp add: isBlocking_def)

section \<open>What the replay queues\<close>

lemma replayed_mem:
  "k \<in> set ks \<Longrightarrow> fmlookup (pendingNotifications srv) k = Some p
   \<Longrightarrow> NotifyRequest.Active (Request (message (pending_at srv p))) = act
   \<Longrightarrow> message (pending_at srv p) \<in> set (replayed srv act ks)"
  by (induction ks) (auto split: option.splits)

lemma replayed_set:
  "m \<in> set (replayed srv act ks)
   \<Longrightarrow> \<exists>k p. k \<in> set ks \<and> fmlookup (pendingNotifications srv) k = Some p
         \<and> NotifyRequest.Active (Request (message (pending_at srv p))) = act
         \<and> m = message (pending_at srv p)"
proof (induction ks)
  case Nil
  then show ?case by simp
next
  case (Cons k ks)
  show ?case
  proof (cases "m \<in> set (replayed srv act ks)")
    case True
    from Cons.IH[OF True] show ?thesis by auto
  next
    case False
    then have "\<exists>p. fmlookup (pendingNotifications srv) k = Some p
         \<and> NotifyRequest.Active (Request (message (pending_at srv p))) = act
         \<and> m = message (pending_at srv p)"
      using Cons.prems by (auto split: option.splits if_splits)
    then show ?thesis by auto
  qed
qed

section \<open>The states of the scenarios\<close>

lemma range_order_range_keys: "range_order m (range_keys m)"
  by (simp add: range_order_def range_keys_def)

lemma New_ok: "registry_ok NewNotificationService" "table_ok NewNotificationService"
  using reachable_inv[OF reachable.init] by simp_all

lemma ran_Notify_info:
  assumes "registry_ok srv" "table_ok srv" "\<not> isBlocking req"
    "len_map (pendingNotifications srv) < 120"
  shows "Notify None PickChannel (range_keys (subscriptions srv)) req srv
           = Returns (Inr empty_NotifyResponse) (ran_Notify req srv)
     \<and> registry_ok (ran_Notify req srv) \<and> table_ok (ran_Notify req srv)
     \<and> pendingNotifications (ran_Notify req srv)
         = fmupd (nextNotificationID srv) (pending_next srv) (pendingNotifications srv)
     \<and> nextNotificationID (ran_Notify req srv) = nextNotificationID srv + 1
     \<and> (\<forall>k a. fmlookup (subscriptions srv) k = Some a \<longrightarrow>
           subscription_at (ran_Notify req srv) a
             = fanned \<lparr>SubscribeResponse.RequestId = nextNotificationID srv, Request = req\<rparr>
                 (subscription_at srv a)
           \<and> fmlookup (subscriptions (ran_Notify req srv)) k
             = (if evicts \<lparr>SubscribeResponse.RequestId = nextNotificationID srv, Request = req\<rparr>
                     (subscription_at srv a)
                then None else Some a))
     \<and> (\<forall>k. fmlookup (subscriptions srv) k = None
           \<longrightarrow> fmlookup (subscriptions (ran_Notify req srv)) k = None)"
proof -
  let ?order = "range_keys (subscriptions srv)"
  let ?msg = "\<lparr>SubscribeResponse.RequestId = nextNotificationID srv, Request = req\<rparr>"
  let ?srv0 = "srv\<lparr>nextNotificationID := nextNotificationID srv + 1\<rparr>"
  let ?p = "pending_next srv"
  have ro: "range_order (subscriptions srv) ?order" by (rule range_order_range_keys)
  from Notify_info_effect[OF assms(1,3,4), of None PickChannel ?order]
  obtain srv1 where f: "fan_out ?order ?msg ?srv0 = Returns () srv1"
    and n: "notifySubscribers ?order req srv =
           Returns ?p
             (srv1\<lparr>pending_at := (pending_at srv)(?p := dispatched ?msg),
                    pending_next := Suc ?p,
                    pendingNotifications :=
                      fmupd (nextNotificationID srv) ?p (pendingNotifications srv)\<rparr>)"
      (is "_ = Returns _ ?S1")
    and r: "Notify None PickChannel ?order req srv =
           Returns (Inr empty_NotifyResponse)
             (srv1\<lparr>pending_at := (pending_at srv)
                      (?p :=
                         \<lparr>message = ?msg,
                          responseChannel = \<lparr>buf = [], cap = 1, chan_closed = True\<rparr>,
                          once = True, closed = True\<rparr>),
                    pending_next := Suc ?p,
                    pendingNotifications :=
                      fmupd (nextNotificationID srv) ?p (pendingNotifications srv)\<rparr>)"
      (is "_ = Returns _ ?S2")
    by blast
  have e: "ran_Notify req srv = ?S2" by (simp add: ran_Notify_def r)
  have r0: "registry_ok ?srv0" using assms(1) by (simp add: registry_ok_next)
  from fan_out_ok[OF r0, of ?order ?msg] f
  have f1: "registry_ok srv1" "same_pending ?srv0 srv1"
    "\<And>k'. fmlookup (subscriptions srv1) k' = fmlookup (subscriptions ?srv0) k'
             \<or> k' \<in> set ?order \<and> fmlookup (subscriptions srv1) k' = None"
    by auto
  note pr = notifySubscribers_preserves[OF assms(1,2) n]
  have sel: "Notify_select None PickChannel ?p ?S1 = Returns (Inr empty_NotifyResponse) ?S2"
    using r assms(4) by (simp add: Notify_def n NotifierMaxPendingNotifications_def)
  have "?p < pending_next ?S1" by simp
  note ps = Notify_select_preserves[OF _ this sel]
  have t2: "table_ok ?S2" using ps pr by blast
  have r2: "registry_ok ?S2" using f1(1) registry_ok_cong[of ?S2 srv1] by simp
  have nn: "nextNotificationID ?S2 = nextNotificationID srv + 1"
    using f1(2) by (simp add: same_pending_def)
  note s = notifySubscribers_subscription[OF assms(1) ro _ n]
  have s2: "subscription_at ?S2 a = fanned ?msg (subscription_at srv a)
           \<and> fmlookup (subscriptions ?S2) k
             = (if evicts ?msg (subscription_at srv a) then None else Some a)"
    if "fmlookup (subscriptions srv) k = Some a" for k a
    using s[OF that] by simp
  have s3: "fmlookup (subscriptions ?S2) k = None" if "fmlookup (subscriptions srv) k = None" for k
    using f1(3)[of k] that by auto
  show ?thesis
    unfolding e using r t2 r2 nn s2 s3 by simp
qed

lemma card_word_of_nat_image:
  "n \<le> 2 ^ 64 \<Longrightarrow> card ((of_nat :: nat \<Rightarrow> 64 word) ` {..<n}) = n"
proof -
  assume "n \<le> 2 ^ 64"
  then have "{..<n} \<subseteq> {0..<2 ^ LENGTH(64)}" by auto
  then have "inj_on (of_nat :: nat \<Rightarrow> 64 word) {..<n}"
    using inj_on_word_of_nat[where 'a=64] by (rule inj_on_subset[rotated])
  then show ?thesis by (simp add: card_image)
qed

lemma crowded_upto:
  "n \<le> 120 \<Longrightarrow>
     registry_ok ((ran_Notify req_x ^^ n) NewNotificationService)
   \<and> table_ok ((ran_Notify req_x ^^ n) NewNotificationService)
   \<and> subscriptions ((ran_Notify req_x ^^ n) NewNotificationService) = fmempty
   \<and> nextNotificationID ((ran_Notify req_x ^^ n) NewNotificationService) = of_nat n
   \<and> fmdom' (pendingNotifications ((ran_Notify req_x ^^ n) NewNotificationService))
       = of_nat ` {..<n}"
proof (induction n)
  case 0
  show ?case using New_ok by (simp add: NewNotificationService_def)
next
  case (Suc n)
  let ?s = "(ran_Notify req_x ^^ n) NewNotificationService"
  from Suc have i: "registry_ok ?s" "table_ok ?s" "subscriptions ?s = fmempty"
    "nextNotificationID ?s = of_nat n"
    "fmdom' (pendingNotifications ?s) = of_nat ` {..<n}"
    by simp_all
  have len: "len_map (pendingNotifications ?s) < 120"
    using Suc.prems card_word_of_nat_image[of n] by (simp add: len_map_def i(5))
  have nb: "\<not> isBlocking req_x" by (simp add: isBlocking_def req_x_def)
  note r = ran_Notify_info[OF i(1,2) nb len]
  have "subscriptions (ran_Notify req_x ?s) = fmempty"
    using r i(3) by (intro fmap_ext) simp
  moreover have "fmdom' (pendingNotifications (ran_Notify req_x ?s)) = of_nat ` {..<Suc n}"
    using r i(4,5) by (simp add: lessThan_Suc)
  ultimately show ?case using r i(4) by simp
qed

lemma crowded_full:
  "registry_ok crowded" "table_ok crowded" "len_map (pendingNotifications crowded) = 120"
  using crowded_upto[of 120] card_word_of_nat_image[of 120]
  by (simp_all add: crowded_def len_map_def)

lemma req_x_fields: "NotifyRequest.Active req_x" "\<not> isBlocking req_x"
  by (simp_all add: req_x_def isBlocking_def)

lemma New_fields:
  "nextSubscriptionID NewNotificationService = 0"
  "subscriptions NewNotificationService = fmempty"
  "nextNotificationID NewNotificationService = 0"
  "pendingNotifications NewNotificationService = fmempty"
  "subscription_next NewNotificationService = 0"
  "pending_next NewNotificationService = 0"
  by (simp_all add: NewNotificationService_def)

lemma subscribed:
  "registry_ok joined"
  "table_ok joined"
  "subscriptions joined = fmupd 0 0 fmempty"
  "subscription_at joined 0 = unread 0"
  "nextNotificationID joined = 0"
  "fmdom' (pendingNotifications joined) = {}"
proof -
  let ?order = "range_keys (pendingNotifications NewNotificationService)"
  have ro: "range_order (pendingNotifications NewNotificationService) ?order"
    by (rule range_order_range_keys)
  have o: "?order = []" by (simp add: range_keys_def New_fields)
  from subscribeLocked_ok[OF ro, of "\<lparr>SubscribeRequest.Active = True\<rparr>"]
  obtain srv' where s: "subscribeLocked ?order \<lparr>SubscribeRequest.Active = True\<rparr> NewNotificationService
                          = Returns (subscription_next NewNotificationService) srv'"
    and e: "subscription_at srv' (subscription_next NewNotificationService) =
         \<lparr>sub_id = nextSubscriptionID NewNotificationService, active = True,
          channel = \<lparr>buf = replayed NewNotificationService True ?order,
                     cap = max 100 (len_map (pendingNotifications NewNotificationService)),
                     chan_closed = False\<rparr>,
          once = False, closed = False, cancel_called = False\<rparr>"
      "subscriptions srv' = fmupd (nextSubscriptionID NewNotificationService)
           (subscription_next NewNotificationService) (subscriptions NewNotificationService)"
      "nextNotificationID srv' = nextNotificationID NewNotificationService"
      "\<And>k. fmlookup (pendingNotifications srv') k
            = (if replay_removes NewNotificationService True k then None
               else fmlookup (pendingNotifications NewNotificationService) k)"
    by auto
  have r: "joined = srv'"
    by (simp add: joined_def ran_Subscribe_def s)
  from subscribeLocked_preserves[OF New_ok ro s]
  show "registry_ok joined"
    "table_ok joined"
    by (simp_all add: r)
  show "subscriptions joined = fmupd 0 0 fmempty"
    by (simp add: r e(2) New_fields)
  show "subscription_at joined 0 = unread 0"
    using e(1) by (simp add: r unread_def New_fields len_map_def range_keys_def)
  show "nextNotificationID joined = 0"
    by (simp add: r e(3) New_fields)
  have "fmlookup (pendingNotifications srv') k = None" for k
    by (simp add: e(4) New_fields)
  then show "fmdom' (pendingNotifications joined) = {}"
    by (auto simp: r fmlookup_dom'_iff)
qed

lemma flooded_upto:
  "n \<le> 100 \<Longrightarrow>
     registry_ok ((ran_Notify req_x ^^ n) joined)
   \<and> table_ok ((ran_Notify req_x ^^ n) joined)
   \<and> subscriptions ((ran_Notify req_x ^^ n) joined)
       = fmupd 0 0 fmempty
   \<and> subscription_at ((ran_Notify req_x ^^ n) joined) 0
       = unread n
   \<and> nextNotificationID ((ran_Notify req_x ^^ n) joined)
       = of_nat n
   \<and> fmdom' (pendingNotifications
               ((ran_Notify req_x ^^ n) joined))
       = of_nat ` {..<n}"
proof (induction n)
  case 0
  show ?case using subscribed by simp
next
  case (Suc n)
  let ?s = "(ran_Notify req_x ^^ n) joined"
  let ?msg = "\<lparr>SubscribeResponse.RequestId = nextNotificationID ?s, Request = req_x\<rparr>"
  from Suc have i: "registry_ok ?s" "table_ok ?s" "subscriptions ?s = fmupd 0 0 fmempty"
    "subscription_at ?s 0 = unread n"
    "nextNotificationID ?s = of_nat n"
    "fmdom' (pendingNotifications ?s) = of_nat ` {..<n}"
    by simp_all
  have len: "len_map (pendingNotifications ?s) < 120"
    using Suc.prems card_word_of_nat_image[of n] by (simp add: len_map_def i(6))
  have nb: "\<not> isBlocking req_x" by (simp add: isBlocking_def req_x_def)
  note r = ran_Notify_info[OF i(1,2) nb len]
  have l0: "fmlookup (subscriptions ?s) 0 = Some 0" by (simp add: i(3))
  have fa: "fanned ?msg (unread n) = unread (Suc n)" "\<not> evicts ?msg (unread n)"
    using Suc.prems
    by (simp_all add: fanned_def evicts_def delivered_def unread_def supports_def req_x_fields i(5))
  have at: "subscription_at (ran_Notify req_x ?s) 0 = unread (Suc n)"
    and l1: "fmlookup (subscriptions (ran_Notify req_x ?s)) 0 = Some 0"
    using r l0 fa by (simp_all add: i(4))
  have "fmlookup (subscriptions (ran_Notify req_x ?s)) k = fmlookup (fmupd 0 0 fmempty) k" for k
  proof (cases "k = 0")
    case True
    then show ?thesis using l1 by simp
  next
    case False
    then have "fmlookup (subscriptions ?s) k = None" by (simp add: i(3))
    then show ?thesis using r False by simp
  qed
  then have "subscriptions (ran_Notify req_x ?s) = fmupd 0 0 fmempty"
    by (rule fmap_ext)
  moreover have "fmdom' (pendingNotifications (ran_Notify req_x ?s)) = of_nat ` {..<Suc n}"
    using r i(5,6) by (simp add: lessThan_Suc)
  ultimately show ?case using r i(5) at by simp
qed

lemma flooded_full:
  "registry_ok flooded" "table_ok flooded" "subscriptions flooded = fmupd 0 0 fmempty"
  "subscription_at flooded 0 = unread 100" "nextNotificationID flooded = 100"
  "len_map (pendingNotifications flooded) = 100"
  using flooded_upto[of 100] card_word_of_nat_image[of 100]
  by (simp_all add: flooded_def len_map_def)

lemmas step_defs =
  Notify_def notifySubscribers_def Notify_select_def Notify_received_def Notify_cancelled_def
  send_response_def close_pending_def pending_close_def chan_send_def chan_recv_def
  chan_close_def make_chan_def len_map_def NotifierMaxPendingNotifications_def
  range_keys_def Let_def

lemma req_yes_fields: "isBlocking req_yes" "Actions req_yes = [''yes'']"
  by (simp_all add: req_yes_def isBlocking_def)

lemma req_reload_fields: "isBlocking req_reload" "NotifyRequest.Active req_reload"
  by (simp_all add: req_reload_def isBlocking_def)

lemma asked_dispatch: "notifySubscribers [] req_yes NewNotificationService = Returns 0 asked"
  by (simp add: asked_def notifySubscribers_def Let_def req_yes_fields New_fields)

lemma asked_reachable: "reachable asked {0}"
  using reachable.dispatch[OF reachable.init _ asked_dispatch]
  by (simp add: range_order_def New_fields)

lemma asked_fields:
  "fmlookup (pendingNotifications asked) 0 = Some 0"
  "message (pending_at asked 0) = \<lparr>SubscribeResponse.RequestId = 0, Request = req_yes\<rparr>"
  "table_ok asked"
  using reachable_inv[OF asked_reachable]
  by (simp_all add: asked_def notifySubscribers_def Let_def req_yes_fields New_fields)

lemma informed_run:
  "Notify None PickChannel [] req_x NewNotificationService
     = Returns (Inr empty_NotifyResponse) informed"
  using ran_Notify_info[OF New_ok req_x_fields(2)]
  by (simp add: informed_def New_fields len_map_def range_keys_def)

lemma informed_fields:
  "registry_ok informed" "table_ok informed"
  "pendingNotifications informed = fmupd 0 0 fmempty"
  "subscriptions informed = fmempty"
  "nextNotificationID informed = 1"
  "pending_next informed = 1"
  "message (pending_at informed 0) = \<lparr>SubscribeResponse.RequestId = 0, Request = req_x\<rparr>"
proof -
  have l: "len_map (pendingNotifications NewNotificationService) < 120"
    by (simp add: New_fields len_map_def)
  note r = ran_Notify_info[OF New_ok req_x_fields(2) l]
  show "registry_ok informed" "table_ok informed"
    "pendingNotifications informed = fmupd 0 0 fmempty" "nextNotificationID informed = 1"
    using r by (simp_all add: informed_def New_fields)
  show "subscriptions informed = fmempty"
    using r by (intro fmap_ext) (simp add: informed_def New_fields)
  show "pending_next informed = 1"
    "message (pending_at informed 0) = \<lparr>SubscribeResponse.RequestId = 0, Request = req_x\<rparr>"
    by (simp_all add: informed_def ran_Notify_def step_defs req_x_fields New_fields)
qed

lemma mixed_dispatch: "notifySubscribers [] req_reload informed = Returns 1 mixed"
  by (simp add: mixed_def notifySubscribers_def Let_def req_reload_fields informed_fields)

lemma mixed_fields:
  "registry_ok mixed" "table_ok mixed"
  "fmlookup (pendingNotifications mixed) 0 = Some 0"
  "fmlookup (pendingNotifications mixed) 1 = Some 1"
  "range_order (pendingNotifications mixed) [0, 1]"
  "message (pending_at mixed 0) = \<lparr>SubscribeResponse.RequestId = 0, Request = req_x\<rparr>"
  "message (pending_at mixed 1) = \<lparr>SubscribeResponse.RequestId = 1, Request = req_reload\<rparr>"
  "subscription_next mixed = 0"
proof -
  from notifySubscribers_preserves[OF informed_fields(1,2) mixed_dispatch]
  show "registry_ok mixed" "table_ok mixed" by simp_all
  have e: "mixed = informed
      \<lparr>nextNotificationID := 2,
       pendingNotifications := fmupd 1 1 (fmupd 0 0 fmempty),
       pending_at := (pending_at informed)
         (1 := \<lparr>message = \<lparr>SubscribeResponse.RequestId = 1, Request = req_reload\<rparr>,
                responseChannel = make_chan 1, once = False, closed = False\<rparr>),
       pending_next := 2\<rparr>"
    by (simp add: mixed_def notifySubscribers_def Let_def req_reload_fields informed_fields)
  show "fmlookup (pendingNotifications mixed) 0 = Some 0"
    "fmlookup (pendingNotifications mixed) 1 = Some 1"
    "message (pending_at mixed 0) = \<lparr>SubscribeResponse.RequestId = 0, Request = req_x\<rparr>"
    "message (pending_at mixed 1) = \<lparr>SubscribeResponse.RequestId = 1, Request = req_reload\<rparr>"
    by (simp_all add: e informed_fields)
  show "range_order (pendingNotifications mixed) [0, 1]"
    by (auto simp: e range_order_def)
  show "subscription_next mixed = 0"
    by (simp add: e informed_def ran_Notify_def step_defs req_x_fields New_fields)
qed



lemma flooded_fields:
  "range_order (subscriptions flooded) [0]"
  "fmlookup (subscriptions flooded) 0 = Some 0"
  "active (subscription_at flooded 0) = NotifyRequest.Active req_x"
  "cap (channel (subscription_at flooded 0)) \<le> length (buf (channel (subscription_at flooded 0)))"
  "range_keys (subscriptions flooded) = [0]"
  by (simp_all add: flooded_full range_order_def unread_def req_x_fields range_keys_def)

lemma notified_reachable: "reachable notified {0}"
proof -
  have "notifySubscribers [] req_x NewNotificationService = Returns 0 notified"
    by (simp add: notified_def notifySubscribers_def step_defs req_x_fields New_fields)
  from reachable.dispatch[OF reachable.init _ this]
  show ?thesis by (simp add: range_order_def New_fields)
qed

lemma notified_fields:
  "message (pending_at notified 0) = \<lparr>SubscribeResponse.RequestId = 0, Request = req_x\<rparr>"
  by (simp add: notified_def notifySubscribers_def step_defs req_x_fields New_fields)













section \<open>The claims\<close>

text \<open>
  C1. \<^verbatim>\<open>validateResponse\<close> accepts a response exactly when its command is populated with
  a non-empty \<^verbatim>\<open>Cmd\<close>, or its command is not populated and its action is empty, or its
  command is not populated and its action is one of the actions of the original request.
  For a request id that is in the pending table and a response that is present,
  \<^verbatim>\<open>Respond\<close> returns \<^verbatim>\<open>InvalidArgument\<close>, leaving the state as it was, exactly when
  the response is not accepted.
\<close>

theorem Respond_validation:
  "(validateResponse resp req \<longleftrightarrow>
      (\<exists>command. Command resp = Some command \<and> Cmd command \<noteq> [])
      \<or> (Command resp = None \<and> Action resp = [])
      \<or> (Command resp = None \<and> Action resp \<in> set (Actions req)))
   \<and> (fmlookup (pendingNotifications srv) (RespondRequest.RequestId rr) = Some p
        \<and> Response rr = Some resp \<and> Request (message (pending_at srv p)) = req
      \<longrightarrow> (Respond rr srv = Returns (Inl (Status InvalidArgument)) srv)
           = (\<not> validateResponse resp req))"
  using validateResponse_iff Respond_InvalidArgument_iff by blast

text \<open>Scenario 7: \<^verbatim>\<open>maybe\<close> is not among the actions of the request.\<close>

theorem Respond_validation_witness:
  "\<not> validateResponse \<lparr>Action = ''maybe'', Command = None\<rparr> req_yes
   \<and> Respond \<lparr>RespondRequest.RequestId = 0,
               Response = Some \<lparr>Action = ''maybe'', Command = None\<rparr>\<rparr> asked
       = Returns (Inl (Status InvalidArgument)) asked"
  using Respond_validation
          [of "\<lparr>Action = ''maybe'', Command = None\<rparr>" req_yes asked
              "\<lparr>RespondRequest.RequestId = 0,
                Response = Some \<lparr>Action = ''maybe'', Command = None\<rparr>\<rparr>" 0]
        asked_fields
  by (simp add: req_yes_fields)

text \<open>
  C2. A request is blocking exactly when its action list is not empty, or \<^verbatim>\<open>Open\<close> is set,
  or \<^verbatim>\<open>Preview\<close> is set. On a registry that is \<open>registry_ok\<close> the dispatcher returns,
  and the response channel of the pending notification it stores under the request's id
  is closed and holds the empty response exactly when the request is not blocking, and is
  open and empty exactly when it is blocking.
\<close>

theorem isBlocking_preload:
  "(isBlocking req \<longleftrightarrow> Actions req \<noteq> [] \<or> Open req \<noteq> None \<or> Preview req \<noteq> None)
   \<and> (registry_ok srv \<longrightarrow>
        (\<exists>p srv'. notifySubscribers order req srv = Returns p srv'
           \<and> fmlookup (pendingNotifications srv') (nextNotificationID srv) = Some p
           \<and> (responseChannel (pending_at srv' p)
                 = \<lparr>buf = [empty_NotifyResponse], cap = 1, chan_closed = True\<rparr>
               \<longleftrightarrow> \<not> isBlocking req)
           \<and> (responseChannel (pending_at srv' p) = \<lparr>buf = [], cap = 1, chan_closed = False\<rparr>
               \<longleftrightarrow> isBlocking req)))"
proof (intro conjI impI)
  show "isBlocking req \<longleftrightarrow> Actions req \<noteq> [] \<or> Open req \<noteq> None \<or> Preview req \<noteq> None"
    by (rule isBlocking_iff)
next
  assume r: "registry_ok srv"
  from notifySubscribers_ok[OF r, of order req]
  obtain srv1 where n: "notifySubscribers order req srv =
               Returns (pending_next srv)
                 (srv1\<lparr>pending_at := (pending_at srv)
                          (pending_next srv :=
                             dispatched \<lparr>SubscribeResponse.RequestId = nextNotificationID srv,
                                         Request = req\<rparr>),
                        pending_next := Suc (pending_next srv),
                        pendingNotifications :=
                          fmupd (nextNotificationID srv) (pending_next srv)
                            (pendingNotifications srv)\<rparr>)"
    by blast
  show "\<exists>p srv'. notifySubscribers order req srv = Returns p srv'
           \<and> fmlookup (pendingNotifications srv') (nextNotificationID srv) = Some p
           \<and> (responseChannel (pending_at srv' p)
                 = \<lparr>buf = [empty_NotifyResponse], cap = 1, chan_closed = True\<rparr>
               \<longleftrightarrow> \<not> isBlocking req)
           \<and> (responseChannel (pending_at srv' p) = \<lparr>buf = [], cap = 1, chan_closed = False\<rparr>
               \<longleftrightarrow> isBlocking req)"
    unfolding n by (simp add: dispatched_def make_chan_def)
qed

text \<open>The non-blocking \<^verbatim>\<open>x\<close> on a new broker.\<close>

theorem isBlocking_preload_witness:
  "\<not> isBlocking req_x \<and> registry_ok NewNotificationService
   \<and> (\<exists>p srv'. notifySubscribers [] req_x NewNotificationService = Returns p srv'
          \<and> fmlookup (pendingNotifications srv') 0 = Some p
          \<and> responseChannel (pending_at srv' p)
              = \<lparr>buf = [empty_NotifyResponse], cap = 1, chan_closed = True\<rparr>)"
  using isBlocking_preload[of req_x NewNotificationService "[]"] New_ok req_x_fields
  by (auto simp: New_fields)




text \<open>
  C4. When a subscriber joins, whatever the order in which the pending table is ranged
  over, \<^verbatim>\<open>subscribeLocked\<close> returns and the queue of the new subscription holds the
  envelopes of the entries whose request has the subscriber's \<^verbatim>\<open>active\<close> flag, in that
  order. Every such entry is in the queue; it is deleted from the table when its request
  is non-blocking and stays when it is blocking; every other entry stays. A second
  subscriber with the same flag that joins afterwards is queued blocking requests only.
\<close>

theorem subscribeLocked_replay:
  assumes "range_order (pendingNotifications srv) order"
  shows "\<exists>srv'. subscribeLocked order sreq srv = Returns (subscription_next srv) srv'
     \<and> buf (channel (subscription_at srv' (subscription_next srv)))
         = replayed srv (SubscribeRequest.Active sreq) order
     \<and> (\<forall>k p. fmlookup (pendingNotifications srv) k = Some p \<longrightarrow>
          (if NotifyRequest.Active (Request (message (pending_at srv p)))
                = SubscribeRequest.Active sreq
           then message (pending_at srv p)
                  \<in> set (buf (channel (subscription_at srv' (subscription_next srv))))
                \<and> fmlookup (pendingNotifications srv') k
                    = (if isBlocking (Request (message (pending_at srv p))) then Some p else None)
           else fmlookup (pendingNotifications srv') k = Some p))
     \<and> (\<forall>order2 sreq2. range_order (pendingNotifications srv') order2
            \<and> SubscribeRequest.Active sreq2 = SubscribeRequest.Active sreq \<longrightarrow>
          (\<exists>srv''. subscribeLocked order2 sreq2 srv' = Returns (Suc (subscription_next srv)) srv''
             \<and> (\<forall>m \<in> set (buf (channel (subscription_at srv'' (Suc (subscription_next srv))))).
                   isBlocking (Request m))))"
proof -
  let ?act = "SubscribeRequest.Active sreq"
  from subscribeLocked_ok[OF assms, of sreq]
  obtain srv' where s: "subscribeLocked order sreq srv = Returns (subscription_next srv) srv'"
    and at: "subscription_at srv' (subscription_next srv) =
         \<lparr>sub_id = nextSubscriptionID srv, active = ?act,
          channel = \<lparr>buf = replayed srv ?act order,
                     cap = max 100 (len_map (pendingNotifications srv)),
                     chan_closed = False\<rparr>,
          once = False, closed = False, cancel_called = False\<rparr>"
    and nx: "subscription_next srv' = Suc (subscription_next srv)"
    and pa: "pending_at srv' = pending_at srv"
    and lk: "\<And>k. fmlookup (pendingNotifications srv') k
            = (if replay_removes srv ?act k then None
               else fmlookup (pendingNotifications srv) k)"
    by blast
  have b: "buf (channel (subscription_at srv' (subscription_next srv))) = replayed srv ?act order"
    by (simp add: at)
  have 1: "if NotifyRequest.Active (Request (message (pending_at srv p))) = ?act
           then message (pending_at srv p)
                  \<in> set (buf (channel (subscription_at srv' (subscription_next srv))))
                \<and> fmlookup (pendingNotifications srv') k
                    = (if isBlocking (Request (message (pending_at srv p))) then Some p else None)
           else fmlookup (pendingNotifications srv') k = Some p"
    if l: "fmlookup (pendingNotifications srv) k = Some p" for k p
  proof (cases "NotifyRequest.Active (Request (message (pending_at srv p))) = ?act")
    case True
    have "k \<in> set order" using range_order_mem[OF assms l] by simp
    from replayed_mem[OF this l True]
    show ?thesis using l True by (simp add: b lk replay_removes_def)
  next
    case False
    then show ?thesis using l by (simp add: lk replay_removes_def)
  qed
  have 2: "\<exists>srv''. subscribeLocked order2 sreq2 srv' = Returns (Suc (subscription_next srv)) srv''
             \<and> (\<forall>m \<in> set (buf (channel (subscription_at srv'' (Suc (subscription_next srv))))).
                   isBlocking (Request m))"
    if o2: "range_order (pendingNotifications srv') order2"
      and a2: "SubscribeRequest.Active sreq2 = ?act" for order2 sreq2
  proof -
    from subscribeLocked_ok[OF o2, of sreq2]
    obtain srv'' where s2: "subscribeLocked order2 sreq2 srv' = Returns (subscription_next srv') srv''"
      and at2: "buf (channel (subscription_at srv'' (subscription_next srv')))
                 = replayed srv' ?act order2"
      unfolding a2 by force
    have "isBlocking (Request m)" if "m \<in> set (replayed srv' ?act order2)" for m
    proof -
      from replayed_set[OF that]
      obtain k p where kp: "fmlookup (pendingNotifications srv') k = Some p"
        "NotifyRequest.Active (Request (message (pending_at srv' p))) = ?act"
        "m = message (pending_at srv' p)"
        by blast
      have "\<not> replay_removes srv ?act k" "fmlookup (pendingNotifications srv) k = Some p"
        using kp(1) lk[of k] by (auto split: if_splits)
      then show ?thesis using kp(2,3) by (simp add: replay_removes_def pa)
    qed
    then show ?thesis using s2 at2 by (auto simp: nx)
  qed
  show ?thesis using s b 1 2 by blast
qed

text \<open>
  The scenario: \<^verbatim>\<open>x\<close> was notified and \<^verbatim>\<open>reload?\<close> is waiting when the subscriber joins.
\<close>

theorem subscribeLocked_replay_witness:
  "range_order (pendingNotifications mixed) [0, 1]
   \<and> (\<exists>srv'. subscribeLocked [0, 1] \<lparr>SubscribeRequest.Active = True\<rparr> mixed = Returns 0 srv'
          \<and> buf (channel (subscription_at srv' 0))
              = [\<lparr>SubscribeResponse.RequestId = 0, Request = req_x\<rparr>,
                 \<lparr>SubscribeResponse.RequestId = 1, Request = req_reload\<rparr>]
          \<and> fmlookup (pendingNotifications srv') 0 = None
          \<and> fmlookup (pendingNotifications srv') 1 = Some 1)"
proof -
  from subscribeLocked_replay[OF mixed_fields(5), of "\<lparr>SubscribeRequest.Active = True\<rparr>"]
  obtain srv' where s: "subscribeLocked [0, 1] \<lparr>SubscribeRequest.Active = True\<rparr> mixed
                          = Returns (subscription_next mixed) srv'"
    and b: "buf (channel (subscription_at srv' (subscription_next mixed)))
         = replayed mixed (SubscribeRequest.Active \<lparr>SubscribeRequest.Active = True\<rparr>) [0, 1]"
    and l: "\<forall>k p. fmlookup (pendingNotifications mixed) k = Some p \<longrightarrow>
          (if NotifyRequest.Active (Request (message (pending_at mixed p)))
                = SubscribeRequest.Active \<lparr>SubscribeRequest.Active = True\<rparr>
           then message (pending_at mixed p)
                  \<in> set (buf (channel (subscription_at srv' (subscription_next mixed))))
                \<and> fmlookup (pendingNotifications srv') k
                    = (if isBlocking (Request (message (pending_at mixed p))) then Some p else None)
           else fmlookup (pendingNotifications srv') k = Some p)"
    by blast
  have m1: "message (pending_at mixed (Suc 0))
              = \<lparr>SubscribeResponse.RequestId = 1, Request = req_reload\<rparr>"
    using mixed_fields(7) by simp
  have 1: "buf (channel (subscription_at srv' 0))
              = [\<lparr>SubscribeResponse.RequestId = 0, Request = req_x\<rparr>,
                 \<lparr>SubscribeResponse.RequestId = 1, Request = req_reload\<rparr>]"
    using b by (simp add: mixed_fields m1 req_x_fields req_reload_fields)
  have 2: "fmlookup (pendingNotifications srv') 0 = None"
    using l mixed_fields(3) by (simp add: mixed_fields(6) req_x_fields)
  have 3: "fmlookup (pendingNotifications srv') 1 = Some 1"
    using l mixed_fields(4) by (simp add: m1 req_reload_fields)
  show ?thesis using s 1 2 3 mixed_fields(5,8) by simp
qed

text \<open>
  C5. When the pending table holds at least 120 entries as \<^verbatim>\<open>Notify\<close> is entered, it
  returns \<^verbatim>\<open>ResourceExhausted\<close> and the state is the one it was given: no id consumed,
  no envelope queued, no pending entry made.
\<close>

theorem Notify_at_capacity:
  "120 \<le> len_map (pendingNotifications srv)
   \<Longrightarrow> Notify ctx pick order req srv = Returns (Inl (Status ResourceExhausted)) srv"
  by (simp add: Notify_def NotifierMaxPendingNotifications_def)

text \<open>The scenario: 120 notifications of \<^verbatim>\<open>x\<close> and no subscriber; the next one is refused.\<close>

theorem Notify_at_capacity_witness:
  "120 \<le> len_map (pendingNotifications crowded)
   \<and> Notify None PickChannel [] req_x crowded
       = Returns (Inl (Status ResourceExhausted)) crowded"
  using Notify_at_capacity[of crowded None PickChannel "[]" req_x] crowded_full
  by simp

text \<open>
  C6. A \<^verbatim>\<open>RespondRequest\<close> whose \<^verbatim>\<open>Response\<close> is unset carries a payload that cannot pass
  validation, and the claim promises \<^verbatim>\<open>InvalidArgument\<close> and an entry left as it was for
  it. \<^verbatim>\<open>Respond\<close> hands the nil pointer to \<^verbatim>\<open>validateResponse\<close>, which reads
  \<^verbatim>\<open>resp.Command\<close>: for every entry of the pending table, a \<^verbatim>\<open>Respond\<close> for its id with
  no response panics; it neither returns \<^verbatim>\<open>InvalidArgument\<close> nor, sent as the following
  \<^verbatim>\<open>Respond\<close>, succeeds.
\<close>

theorem Respond_unset_response:
  "fmlookup (pendingNotifications srv) (RespondRequest.RequestId rr) = Some p
   \<Longrightarrow> Response rr = None
   \<Longrightarrow> Respond rr srv = Panics"
  by (simp add: Respond_def)

text \<open>Scenario 7 with the \<^verbatim>\<open>Response\<close> left out of the \<^verbatim>\<open>RespondRequest\<close>.\<close>

theorem Respond_unset_response_witness:
  "fmlookup (pendingNotifications asked) 0 = Some 0
   \<and> isBlocking (Request (message (pending_at asked 0)))
   \<and> Respond \<lparr>RespondRequest.RequestId = 0, Response = None\<rparr> asked = Panics"
  using Respond_unset_response
          [of asked "\<lparr>RespondRequest.RequestId = 0, Response = None\<rparr>" 0]
  by (simp add: asked_fields req_yes_fields)

text \<open>
  C7. A \<^verbatim>\<open>Respond\<close> whose request id is not a key of the pending table returns
  \<^verbatim>\<open>DeadlineExceeded\<close> and leaves the state of the broker as it was.
\<close>

theorem Respond_unknown_id:
  "fmlookup (pendingNotifications srv) (RespondRequest.RequestId rr) = None
   \<Longrightarrow> Respond rr srv = Returns (Inl (Status DeadlineExceeded)) srv"
  by (simp add: Respond_def)

theorem Respond_unknown_id_witness:
  "fmlookup (pendingNotifications NewNotificationService) 7 = None
   \<and> Respond \<lparr>RespondRequest.RequestId = 7, Response = Some \<lparr>Action = ''yes'', Command = None\<rparr>\<rparr>
        NewNotificationService
     = Returns (Inl (Status DeadlineExceeded)) NewNotificationService"
  using Respond_unknown_id
          [of NewNotificationService
              "\<lparr>RespondRequest.RequestId = 7, Response = Some \<lparr>Action = ''yes'', Command = None\<rparr>\<rparr>"]
  by (simp add: NewNotificationService_def)

text \<open>
  C8. On a registry that is \<open>registry_ok\<close>, whatever the order of the fan-out: a
  subscription with the request's \<^verbatim>\<open>active\<close> flag whose queue is full is deleted from
  the registry and closed, with its queue as it was; every subscription with the flag and
  room in its queue stays registered and is queued the envelope; and what \<^verbatim>\<open>Notify\<close>
  answers its producer is what it answers when the registry is empty.
\<close>

theorem notifySubscribers_evicts_full:
  assumes "registry_ok srv" "range_order (subscriptions srv) order"
    "fmlookup (subscriptions srv) k = Some a"
    "active (subscription_at srv a) = NotifyRequest.Active req"
    "cap (channel (subscription_at srv a)) \<le> length (buf (channel (subscription_at srv a)))"
  shows "\<exists>p srv'. notifySubscribers order req srv = Returns p srv'
     \<and> fmlookup (subscriptions srv') k = None
     \<and> subscription.closed (subscription_at srv' a)
     \<and> chan_closed (channel (subscription_at srv' a))
     \<and> cancel_called (subscription_at srv' a)
     \<and> buf (channel (subscription_at srv' a)) = buf (channel (subscription_at srv a))
     \<and> (\<forall>k' a'. fmlookup (subscriptions srv) k' = Some a'
            \<and> active (subscription_at srv a') = NotifyRequest.Active req
            \<and> length (buf (channel (subscription_at srv a'))) < cap (channel (subscription_at srv a'))
          \<longrightarrow> fmlookup (subscriptions srv') k' = Some a'
              \<and> buf (channel (subscription_at srv' a'))
                  = buf (channel (subscription_at srv a'))
                    @ [\<lparr>SubscribeResponse.RequestId = nextNotificationID srv, Request = req\<rparr>])
     \<and> answer (Notify ctx pick order req srv)
         = answer (Notify ctx pick [] req (srv\<lparr>subscriptions := fmempty\<rparr>))"
proof -
  from notifySubscribers_ok[OF assms(1), of order req]
  obtain p srv' where n: "notifySubscribers order req srv = Returns p srv'" by blast
  note s = notifySubscribers_subscription[OF assms(1,2) _ n]
  have 1: "fmlookup (subscriptions srv') k = None
     \<and> subscription.closed (subscription_at srv' a)
     \<and> chan_closed (channel (subscription_at srv' a))
     \<and> cancel_called (subscription_at srv' a)
     \<and> buf (channel (subscription_at srv' a)) = buf (channel (subscription_at srv a))"
    using s[OF assms(3)] assms(4,5)
    by (simp add: fanned_def evicts_def evicted_def supports_def)
  have 2: "fmlookup (subscriptions srv') k' = Some a'
              \<and> buf (channel (subscription_at srv' a'))
                  = buf (channel (subscription_at srv a'))
                    @ [\<lparr>SubscribeResponse.RequestId = nextNotificationID srv, Request = req\<rparr>]"
    if "fmlookup (subscriptions srv) k' = Some a'"
      "active (subscription_at srv a') = NotifyRequest.Active req"
      "length (buf (channel (subscription_at srv a'))) < cap (channel (subscription_at srv a'))"
    for k' a'
    using s[OF that(1)] that(2,3)
    by (simp add: fanned_def evicts_def delivered_def supports_def)
  show ?thesis
    using n 1 2 Notify_answer[OF assms(1)] by blast
qed

text \<open>Scenario 5: the subscriber that never read is evicted by the 101st notification.\<close>

theorem notifySubscribers_evicts_full_witness:
  "registry_ok flooded \<and> range_order (subscriptions flooded) [0]
   \<and> fmlookup (subscriptions flooded) 0 = Some 0
   \<and> active (subscription_at flooded 0) = NotifyRequest.Active req_x
   \<and> cap (channel (subscription_at flooded 0)) \<le> length (buf (channel (subscription_at flooded 0)))
   \<and> (\<exists>p srv'. notifySubscribers [0] req_x flooded = Returns p srv'
          \<and> fmlookup (subscriptions srv') 0 = None
          \<and> subscription.closed (subscription_at srv' 0)
          \<and> chan_closed (channel (subscription_at srv' 0))
          \<and> buf (channel (subscription_at srv' 0)) = buf (channel (subscription_at flooded 0)))
   \<and> answer (Notify None PickChannel [0] req_x flooded)
       = answer (Notify None PickChannel [] req_x (flooded\<lparr>subscriptions := fmempty\<rparr>))"
  using notifySubscribers_evicts_full[OF flooded_full(1) flooded_fields(1,2,3,4),
      of None PickChannel]
    flooded_full(1) flooded_fields(1,2,3,4)
  by blast




text \<open>
  C10. For an entry of the pending table whose request is non-blocking, in a state that
  is \<open>table_ok\<close>: a \<^verbatim>\<open>Respond\<close> for its id with a valid response returns the
  acknowledgement and leaves the state with the entry deleted and nothing else changed;
  in particular no pending notification, and so no response channel, is written.
\<close>

theorem Respond_nonblocking_entry:
  assumes "table_ok srv"
    "fmlookup (pendingNotifications srv) (RespondRequest.RequestId rr) = Some p"
    "\<not> isBlocking (Request (message (pending_at srv p)))"
    "Response rr = Some resp"
    "validateResponse resp (Request (message (pending_at srv p)))"
  shows "\<exists>srv'. Respond rr srv = Returns (Inr RespondResponse) srv'
     \<and> fmlookup (pendingNotifications srv') (RespondRequest.RequestId rr) = None
     \<and> pending_at srv' = pending_at srv
     \<and> srv' = srv\<lparr>pendingNotifications :=
                     fmdrop (RespondRequest.RequestId rr) (pendingNotifications srv)\<rparr>"
proof -
  note e = table_ok_entry[OF assms(1,2)]
  have c: "pendingNotification.closed (pending_at srv p)"
    using e assms(3) by (simp add: pending_ok_def)
  show ?thesis
    unfolding Respond_valid_closed[OF assms(1,2,4,5) c] by simp
qed

text \<open>Scenario 4 before anyone joins: a cancellation for the notified \<^verbatim>\<open>x\<close> is acknowledged.\<close>

theorem Respond_nonblocking_entry_witness:
  "table_ok informed
   \<and> fmlookup (pendingNotifications informed) 0 = Some 0
   \<and> \<not> isBlocking (Request (message (pending_at informed 0)))
   \<and> validateResponse empty_NotifyResponse (Request (message (pending_at informed 0)))
   \<and> Respond \<lparr>RespondRequest.RequestId = 0, Response = Some empty_NotifyResponse\<rparr> informed
       = Returns (Inr RespondResponse)
           (informed\<lparr>pendingNotifications := fmdrop 0 (pendingNotifications informed)\<rparr>)"
proof -
  let ?rr = "\<lparr>RespondRequest.RequestId = 0, Response = Some empty_NotifyResponse\<rparr>"
  have l: "fmlookup (pendingNotifications informed) (RespondRequest.RequestId ?rr) = Some 0"
    by (simp add: informed_fields)
  have b: "\<not> isBlocking (Request (message (pending_at informed 0)))"
    by (simp add: informed_fields req_x_fields)
  have r: "Response ?rr = Some empty_NotifyResponse" by simp
  have v: "validateResponse empty_NotifyResponse (Request (message (pending_at informed 0)))"
    by (simp add: validateResponse_def empty_NotifyResponse_def)
  from Respond_nonblocking_entry[OF informed_fields(2) l b r v]
  show ?thesis using informed_fields(2) l b v by auto
qed

section \<open>Further properties\<close>

text \<open>
  Every state the broker reaches keeps its registry and its pending table well formed,
  and no \<^verbatim>\<open>Notify\<close> call still at its \<^verbatim>\<open>select\<close> holds a response channel that is closed
  with nothing buffered.
\<close>

theorem reachable_well_formed:
  "reachable srv W \<Longrightarrow> registry_ok srv \<and> table_ok srv \<and> inflight_ok srv W"
  by (rule reachable_inv)

theorem reachable_well_formed_witness:
  "reachable asked {0} \<and> registry_ok asked \<and> table_ok asked \<and> inflight_ok asked {0}"
  using reachable_well_formed[OF asked_reachable] asked_reachable by simp

text \<open>
  The round trip: a valid \<^verbatim>\<open>Respond\<close> for a blocking entry is acknowledged, deletes the
  entry, and the \<^verbatim>\<open>select\<close> of the producer then returns exactly that response,
  leaving its channel empty.
\<close>

theorem Respond_delivers:
  assumes "table_ok srv"
    "fmlookup (pendingNotifications srv) (RespondRequest.RequestId rr) = Some p"
    "isBlocking (Request (message (pending_at srv p)))"
    "Response rr = Some resp"
    "validateResponse resp (Request (message (pending_at srv p)))"
  shows "\<exists>srv' srv''. Respond rr srv = Returns (Inr RespondResponse) srv'
     \<and> fmlookup (pendingNotifications srv') (RespondRequest.RequestId rr) = None
     \<and> Notify_select None pick p srv' = Returns (Inr resp) srv''
     \<and> buf (responseChannel (pending_at srv'' p)) = []"
proof -
  note e = table_ok_entry[OF assms(1,2)]
  have o: "\<not> pendingNotification.closed (pending_at srv p)" using e assms(3) by simp
  show ?thesis
    unfolding Respond_valid_open[OF assms(1,2,4,5) o]
    by (simp add: responded_def Notify_select_def Notify_received_def chan_recv_def)
qed

theorem Respond_delivers_witness:
  "table_ok asked \<and> fmlookup (pendingNotifications asked) 0 = Some 0
   \<and> isBlocking (Request (message (pending_at asked 0)))
   \<and> validateResponse \<lparr>Action = ''yes'', Command = None\<rparr>
        (Request (message (pending_at asked 0)))
   \<and> (\<exists>srv' srv''.
         Respond \<lparr>RespondRequest.RequestId = 0,
                  Response = Some \<lparr>Action = ''yes'', Command = None\<rparr>\<rparr> asked
           = Returns (Inr RespondResponse) srv'
         \<and> Notify_select None PickChannel 0 srv'
             = Returns (Inr \<lparr>Action = ''yes'', Command = None\<rparr>) srv'')"
proof -
  let ?rr = "\<lparr>RespondRequest.RequestId = 0,
              Response = Some \<lparr>Action = ''yes'', Command = None\<rparr>\<rparr>"
  have l: "fmlookup (pendingNotifications asked) (RespondRequest.RequestId ?rr) = Some 0"
    by (simp add: asked_fields)
  have b: "isBlocking (Request (message (pending_at asked 0)))"
    by (simp add: asked_fields req_yes_fields)
  have r: "Response ?rr = Some \<lparr>Action = ''yes'', Command = None\<rparr>" by simp
  have y: "validateResponse \<lparr>Action = ''yes'', Command = None\<rparr>
          (Request (message (pending_at asked 0)))"
    by (simp add: asked_fields validateResponse_def req_yes_fields)
  from Respond_delivers[OF asked_fields(3) l b r y, of PickChannel]
  show ?thesis using asked_fields(1,3) b y by blast
qed

text \<open>
  Cancellation: when the context of the producer of a blocking entry is done, its
  \<^verbatim>\<open>select\<close> returns the context's error, the entry is deleted and closed without a
  value, and any later \<^verbatim>\<open>Respond\<close> for its id returns \<^verbatim>\<open>DeadlineExceeded\<close>.
\<close>

theorem Notify_cancelled_removes:
  assumes "table_ok srv" "fmlookup (pendingNotifications srv) k = Some p"
    "isBlocking (Request (message (pending_at srv p)))"
  shows "\<exists>srv'. Notify_select (Some e) pick p srv = Returns (Inl (ContextErr e)) srv'
     \<and> fmlookup (pendingNotifications srv') k = None
     \<and> pendingNotification.closed (pending_at srv' p)
     \<and> buf (responseChannel (pending_at srv' p)) = []
     \<and> (\<forall>rr. RespondRequest.RequestId rr = k
           \<longrightarrow> Respond rr srv' = Returns (Inl (Status DeadlineExceeded)) srv')"
proof -
  note t = table_ok_entry[OF assms(1,2)]
  have o: "\<not> pendingNotification.closed (pending_at srv p)" using t assms(3) by simp
  have c: "buf (responseChannel (pending_at srv p)) = []"
    "\<not> chan_closed (responseChannel (pending_at srv p))"
    "\<not> pendingNotification.once (pending_at srv p)"
    using t o by (simp_all add: pending_ok_def)
  have "Notify_select (Some e) pick p srv =
          Returns (Inl (ContextErr e))
            (srv\<lparr>pendingNotifications := fmdrop k (pendingNotifications srv),
                 pending_at := (pending_at srv)
                   (p := (pending_at srv p)
                      \<lparr>responseChannel := (responseChannel (pending_at srv p))\<lparr>chan_closed := True\<rparr>,
                       pendingNotification.closed := True,
                       pendingNotification.once := True\<rparr>)\<rparr>)"
    using t c assms(2)
    by (simp add: Notify_select_def chan_recv_def Notify_cancelled_def Let_def close_pending_def
        pending_close_def chan_close_def)
  then show ?thesis
    using c by (simp add: Respond_def)
qed

theorem Notify_cancelled_removes_witness:
  "table_ok asked \<and> fmlookup (pendingNotifications asked) 0 = Some 0
   \<and> isBlocking (Request (message (pending_at asked 0)))
   \<and> (\<exists>srv'. Notify_select (Some Canceled) PickDone 0 asked
                 = Returns (Inl (ContextErr Canceled)) srv'
          \<and> fmlookup (pendingNotifications srv') 0 = None
          \<and> Respond \<lparr>RespondRequest.RequestId = 0,
                      Response = Some \<lparr>Action = ''yes'', Command = None\<rparr>\<rparr> srv'
              = Returns (Inl (Status DeadlineExceeded)) srv')"
proof -
  have b: "isBlocking (Request (message (pending_at asked 0)))"
    by (simp add: asked_fields req_yes_fields)
  from Notify_cancelled_removes[OF asked_fields(3,1) b, of Canceled PickDone]
  obtain srv' where s: "Notify_select (Some Canceled) PickDone 0 asked
                 = Returns (Inl (ContextErr Canceled)) srv'"
      "fmlookup (pendingNotifications srv') 0 = None"
      "\<forall>rr. RespondRequest.RequestId rr = 0
           \<longrightarrow> Respond rr srv' = Returns (Inl (Status DeadlineExceeded)) srv'"
    by blast
  from s(3) have "Respond \<lparr>RespondRequest.RequestId = 0,
                      Response = Some \<lparr>Action = ''yes'', Command = None\<rparr>\<rparr> srv'
              = Returns (Inl (Status DeadlineExceeded)) srv'"
    by simp
  then show ?thesis using s(1,2) asked_fields(1,3) b by blast
qed

text \<open>
  Whatever other calls do in between, a \<^verbatim>\<open>Notify\<close> call for a non-blocking request that is
  still at its \<^verbatim>\<open>select\<close> returns the empty response once it runs with a live context
  (or takes the response channel).
\<close>

theorem Notify_inflight_nonblocking:
  assumes "reachable srv W" "p \<in> W"
    "\<not> isBlocking (Request (message (pending_at srv p)))"
    "ctx = None \<or> pick = PickChannel"
  shows "\<exists>srv'. Notify_select ctx pick p srv = Returns (Inr empty_NotifyResponse) srv'"
proof -
  have "buf (responseChannel (pending_at srv p)) = [empty_NotifyResponse]"
    using reachable_inv[OF assms(1)] assms(2,3) by (simp add: inflight_ok_def)
  then show ?thesis
    using assms(4)
    by (auto simp: Notify_select_def Notify_received_def chan_recv_def Let_def
        split: option.splits)
qed

theorem Notify_inflight_nonblocking_witness:
  "reachable notified {0} \<and> 0 \<in> {0::nat}
   \<and> \<not> isBlocking (Request (message (pending_at notified 0)))
   \<and> (\<exists>srv'. Notify_select None PickChannel 0 notified
                 = Returns (Inr empty_NotifyResponse) srv')"
proof -
  have b: "\<not> isBlocking (Request (message (pending_at notified 0)))"
    by (simp add: notified_fields req_x_fields)
  from Notify_inflight_nonblocking[OF notified_reachable _ b, of None PickChannel]
  show ?thesis using notified_reachable b by simp
qed

text \<open>
  A response that is present and fails validation: for an entry of the pending table
  whose request is blocking, in a state that is \<open>table_ok\<close>, \<^verbatim>\<open>Respond\<close> returns
  \<^verbatim>\<open>InvalidArgument\<close> and leaves the state as it was; the response channel of the entry
  is empty and open, so the \<^verbatim>\<open>select\<close> of its producer (with a live context) stays
  suspended; and a following \<^verbatim>\<open>Respond\<close> for the same id with any valid response returns
  the acknowledgement, deletes the entry and lets the producer receive that response.
\<close>

theorem Respond_invalid_untouched:
  assumes "table_ok srv"
    "fmlookup (pendingNotifications srv) (RespondRequest.RequestId rr) = Some p"
    "isBlocking (Request (message (pending_at srv p)))"
    "Response rr = Some resp"
    "\<not> validateResponse resp (Request (message (pending_at srv p)))"
  shows "Respond rr srv = Returns (Inl (Status InvalidArgument)) srv
     \<and> buf (responseChannel (pending_at srv p)) = []
     \<and> \<not> chan_closed (responseChannel (pending_at srv p))
     \<and> Notify_select None pick p srv = Blocks srv
     \<and> (\<forall>resp'. validateResponse resp' (Request (message (pending_at srv p))) \<longrightarrow>
          (\<exists>srv'. Respond (rr\<lparr>Response := Some resp'\<rparr>) srv = Returns (Inr RespondResponse) srv'
             \<and> fmlookup (pendingNotifications srv') (RespondRequest.RequestId rr) = None
             \<and> (\<exists>srv''. Notify_select None pick p srv' = Returns (Inr resp') srv'')))"
proof -
  note e = table_ok_entry[OF assms(1,2)]
  have o: "\<not> pendingNotification.closed (pending_at srv p)" using e assms(3) by simp
  have c: "buf (responseChannel (pending_at srv p)) = []"
    "\<not> chan_closed (responseChannel (pending_at srv p))"
    using e o by (simp_all add: pending_ok_def)
  have 1: "Respond rr srv = Returns (Inl (Status InvalidArgument)) srv"
    using assms(2,4,5) by (simp add: Respond_def)
  have 2: "Notify_select None pick p srv = Blocks srv"
    using c by (simp add: Notify_select_def chan_recv_def)
  have 3: "\<exists>srv'. Respond (rr\<lparr>Response := Some resp'\<rparr>) srv = Returns (Inr RespondResponse) srv'
             \<and> fmlookup (pendingNotifications srv') (RespondRequest.RequestId rr) = None
             \<and> (\<exists>srv''. Notify_select None pick p srv' = Returns (Inr resp') srv'')"
    if v: "validateResponse resp' (Request (message (pending_at srv p)))" for resp'
  proof -
    have l: "fmlookup (pendingNotifications srv)
               (RespondRequest.RequestId (rr\<lparr>Response := Some resp'\<rparr>)) = Some p"
      using assms(2) by simp
    have r: "Response (rr\<lparr>Response := Some resp'\<rparr>) = Some resp'" by simp
    show ?thesis
      unfolding Respond_valid_open[OF assms(1) l r v o]
      by (simp add: responded_def Notify_select_def Notify_received_def chan_recv_def)
  qed
  show ?thesis using 1 2 3 c by blast
qed

text \<open>Scenario 7: \<^verbatim>\<open>maybe\<close> is refused, then \<^verbatim>\<open>yes\<close> is accepted and reaches the producer.\<close>

theorem Respond_invalid_untouched_witness:
  "table_ok asked
   \<and> fmlookup (pendingNotifications asked) 0 = Some 0
   \<and> isBlocking (Request (message (pending_at asked 0)))
   \<and> \<not> validateResponse \<lparr>Action = ''maybe'', Command = None\<rparr>
          (Request (message (pending_at asked 0)))
   \<and> Respond \<lparr>RespondRequest.RequestId = 0,
               Response = Some \<lparr>Action = ''maybe'', Command = None\<rparr>\<rparr> asked
       = Returns (Inl (Status InvalidArgument)) asked
   \<and> Notify_select None PickChannel 0 asked = Blocks asked
   \<and> (\<exists>srv'. Respond \<lparr>RespondRequest.RequestId = 0,
                       Response = Some \<lparr>Action = ''yes'', Command = None\<rparr>\<rparr> asked
               = Returns (Inr RespondResponse) srv'
          \<and> (\<exists>srv''. Notify_select None PickChannel 0 srv'
                        = Returns (Inr \<lparr>Action = ''yes'', Command = None\<rparr>) srv''))"
proof -
  let ?rr = "\<lparr>RespondRequest.RequestId = 0,
              Response = Some \<lparr>Action = ''maybe'', Command = None\<rparr>\<rparr>"
  have l: "fmlookup (pendingNotifications asked) (RespondRequest.RequestId ?rr) = Some 0"
    by (simp add: asked_fields)
  have b: "isBlocking (Request (message (pending_at asked 0)))"
    by (simp add: asked_fields req_yes_fields)
  have r: "Response ?rr = Some \<lparr>Action = ''maybe'', Command = None\<rparr>" by simp
  have n: "\<not> validateResponse \<lparr>Action = ''maybe'', Command = None\<rparr>
          (Request (message (pending_at asked 0)))"
    by (simp add: asked_fields validateResponse_def req_yes_fields)
  have y: "validateResponse \<lparr>Action = ''yes'', Command = None\<rparr>
          (Request (message (pending_at asked 0)))"
    by (simp add: asked_fields validateResponse_def req_yes_fields)
  from Respond_invalid_untouched[OF asked_fields(3) l b r n, of PickChannel] y
  show ?thesis using asked_fields(1,3) b n by force
qed

end
